theory Spec2Isabelle
  imports Main "HOL-Library.Word"
begin

unbundle bit_operations_syntax

section \<open>The heap of mm-segregated\_fits.c\<close>

text \<open>
  The allocator works on a flat memory through the macros \<open>READ_DATA\<close>, \<open>WRITE_DATA\<close>,
  \<open>READ_ADDR\<close> and \<open>WRITE_ADDR\<close>, each of which moves one machine word. The model takes
  a 64-bit target (\<open>sizeof(size_t) = sizeof(void*) = 8\<close>): \<open>size_t\<close> values and
  addresses are \<open>64 word\<close>, arithmetic wraps as in C. Memory is a function from the byte
  address of a word-sized cell to the word stored there; every access of the allocator is
  one cell, and a cell is named by the address the macro is applied to. The three globals
  \<open>lookup_table\<close>, \<open>first_block\<close>, \<open>end_heap\<close> are fields of the state, next to the
  break and the limit of the heap managed by \<open>mem_sbrk\<close>.
\<close>

type_synonym size_t = "64 word"
type_synonym ptr = "64 word"

record heap =
  mem :: "ptr \<Rightarrow> size_t"
  lookup_table :: ptr
  first_block :: ptr
  end_heap :: ptr
  mem_brk :: ptr
  mem_max_addr :: ptr

definition NULL :: ptr where
  "NULL = 0"

subsection \<open>Macros\<close>

definition ALIGNMENT :: size_t where
  "ALIGNMENT = 8"

definition CLASSES :: int where
  "CLASSES = 20"

definition LIMIT_COALESCE :: int where
  "LIMIT_COALESCE = 2"

definition ALIGN :: "size_t \<Rightarrow> size_t" where
  "ALIGN sz = (sz + (ALIGNMENT - 1)) AND NOT 7"

definition ADDRESS_SIZE :: size_t where
  "ADDRESS_SIZE = 8"

definition LOOKUP_TABLE_SIZE :: size_t where
  "LOOKUP_TABLE_SIZE = word_of_int CLASSES * ADDRESS_SIZE"

definition LOOKUP_TABLE :: "heap \<Rightarrow> int \<Rightarrow> ptr" where
  "LOOKUP_TABLE s i = lookup_table s + ADDRESS_SIZE * word_of_int i"

text \<open>\<open>GET_CLASS(ind, size)\<close>: the \<open>for\<close> loop of the macro, started at \<open>ind = 0\<close>,
  \<open>value = 64\<close>.\<close>

function GET_CLASS_loop :: "int \<Rightarrow> size_t \<Rightarrow> size_t \<Rightarrow> int" where
  "GET_CLASS_loop ind val sz =
     (if ind < CLASSES then (if val > sz then ind else GET_CLASS_loop (ind + 1) (val * 2) sz)
      else ind)"
  by pat_completeness auto
termination
  by (relation "measure (\<lambda>(ind, val, sz). nat (CLASSES - ind))") auto

declare GET_CLASS_loop.simps [simp del]

definition GET_CLASS :: "size_t \<Rightarrow> int" where
  "GET_CLASS sz = GET_CLASS_loop 0 64 sz"

definition GET_MAX_DIM :: "int \<Rightarrow> int" where
  "GET_MAX_DIM c = push_bit (nat (c + 6)) 1 - 1"

definition HEADER_SIZE :: size_t where
  "HEADER_SIZE = 8"

definition FOOTER_SIZE :: size_t where
  "FOOTER_SIZE = 8"

definition MAX_OVERHEAD :: size_t where
  "MAX_OVERHEAD = HEADER_SIZE + FOOTER_SIZE + 2 * ADDRESS_SIZE"

definition HF_OVERHEAD :: size_t where
  "HF_OVERHEAD = HEADER_SIZE + FOOTER_SIZE"

definition MBS :: size_t where
  "MBS = ALIGN MAX_OVERHEAD"

definition WRITE_DATA :: "heap \<Rightarrow> ptr \<Rightarrow> size_t \<Rightarrow> heap" where
  "WRITE_DATA s p d = s\<lparr>mem := (mem s)(p := d)\<rparr>"

definition READ_DATA :: "heap \<Rightarrow> ptr \<Rightarrow> size_t" where
  "READ_DATA s p = mem s p"

definition WRITE_ADDR :: "heap \<Rightarrow> ptr \<Rightarrow> ptr \<Rightarrow> heap" where
  "WRITE_ADDR s p a = s\<lparr>mem := (mem s)(p := a)\<rparr>"

definition READ_ADDR :: "heap \<Rightarrow> ptr \<Rightarrow> ptr" where
  "READ_ADDR s p = mem s p"

definition PACK :: "size_t \<Rightarrow> size_t \<Rightarrow> size_t" where
  "PACK d b = d + b"

definition GET_SIZE :: "heap \<Rightarrow> ptr \<Rightarrow> size_t" where
  "GET_SIZE s p = READ_DATA s p AND NOT 7"

definition BIT :: "heap \<Rightarrow> ptr \<Rightarrow> size_t" where
  "BIT s p = READ_DATA s p AND 1"

definition HEADER :: "ptr \<Rightarrow> ptr" where
  "HEADER p = p - HEADER_SIZE"

definition FOOTER :: "heap \<Rightarrow> ptr \<Rightarrow> ptr" where
  "FOOTER s p = p + GET_SIZE s (HEADER p) - HF_OVERHEAD"

definition PREV :: "ptr \<Rightarrow> ptr" where
  "PREV p = p"

definition NEXT :: "ptr \<Rightarrow> ptr" where
  "NEXT p = p + ADDRESS_SIZE"

definition LEFT :: "heap \<Rightarrow> ptr \<Rightarrow> ptr" where
  "LEFT s p = p - GET_SIZE s (p - HF_OVERHEAD)"

definition RIGHT :: "heap \<Rightarrow> ptr \<Rightarrow> ptr" where
  "RIGHT s p = p + GET_SIZE s (HEADER p)"

subsection \<open>The grow primitive\<close>

text \<open>Modelled from the spec: \<open>mem_sbrk\<close> (declared in memlib.h, which is not part of the
  sources). \<open>grow(n)\<close> extends the heap by exactly \<open>n\<close> bytes and returns the address of
  the first new byte; on failure it returns the null sentinel the callers test for and
  leaves the state unchanged. It fails when the new break would pass the limit.\<close>

definition mem_sbrk :: "heap \<Rightarrow> size_t \<Rightarrow> ptr \<times> heap" where
  "mem_sbrk s incr =
     (if unat (mem_brk s) + unat incr > unat (mem_max_addr s) then (NULL, s)
      else (mem_brk s, s\<lparr>mem_brk := mem_brk s + incr\<rparr>))"

subsection \<open>List maintenance\<close>

definition remove_from_free_list :: "heap \<Rightarrow> int \<Rightarrow> ptr \<Rightarrow> heap" where
  "remove_from_free_list s class p =
     (let class_addr = LOOKUP_TABLE s class in
      if READ_ADDR s class_addr = NULL \<or> p = NULL then s
      else if READ_ADDR s (PREV p) = NULL \<and> READ_ADDR s (NEXT p) = NULL
        then WRITE_ADDR s class_addr NULL
      else
        let s1 = (if READ_ADDR s (PREV p) \<noteq> NULL
                  then WRITE_ADDR s (NEXT (READ_ADDR s (PREV p))) (READ_ADDR s (NEXT p))
                  else WRITE_ADDR s class_addr (READ_ADDR s (NEXT p)))
        in if READ_ADDR s1 (NEXT p) \<noteq> NULL
           then WRITE_ADDR s1 (PREV (READ_ADDR s1 (NEXT p))) (READ_ADDR s1 (PREV p))
           else s1)"

definition put_on_front_of_class_list :: "heap \<Rightarrow> int \<Rightarrow> ptr \<Rightarrow> heap" where
  "put_on_front_of_class_list s class p =
     (if class < 0 \<or> class \<ge> CLASSES then s
      else
        let class_addr = LOOKUP_TABLE s class;
            s1 = (if READ_ADDR s class_addr = NULL
                  then WRITE_ADDR (WRITE_ADDR s (PREV p) NULL) (NEXT p) NULL
                  else
                    let s2 = WRITE_ADDR s (PREV (READ_ADDR s class_addr)) p;
                        s3 = WRITE_ADDR s2 (NEXT p) (READ_ADDR s2 class_addr)
                    in WRITE_ADDR s3 (PREV p) NULL)
        in WRITE_ADDR s1 class_addr p)"

subsection \<open>Placement search\<close>

text \<open>The body of \<open>while(1)\<close> under \<open>BEST_FIT\<close> (which the source defines). The loop
  follows \<open>next\<close> links read from memory and need not terminate on a cyclic list: it is a
  partial function, \<open>None\<close> standing for a walk that never ends.\<close>

partial_function (option) search_loop :: "heap \<Rightarrow> size_t \<Rightarrow> ptr \<Rightarrow> ptr \<Rightarrow> ptr option" where
  "search_loop s size_req rover best =
     (let hit = (size_req \<le> GET_SIZE s (HEADER rover) \<and>
                 (best = NULL \<or> GET_SIZE s (HEADER rover) < GET_SIZE s (HEADER best)));
          best' = (if hit then rover else best)
      in if hit \<and> GET_SIZE s (HEADER best') = size_req then Some best'
         else if READ_ADDR s (NEXT rover) = NULL then Some best'
         else search_loop s size_req (READ_ADDR s (NEXT rover)) best')"

definition search_free_list :: "heap \<Rightarrow> int \<Rightarrow> size_t \<Rightarrow> ptr option" where
  "search_free_list s class size_req =
     (if class < 0 \<or> class \<ge> CLASSES then Some NULL
      else
        let rover = READ_ADDR s (LOOKUP_TABLE s class) in
        if rover = NULL then Some NULL
        else search_loop s size_req rover NULL)"

subsection \<open>Split and coalesce\<close>

definition split :: "heap \<Rightarrow> ptr \<Rightarrow> size_t \<Rightarrow> heap" where
  "split s p newsize =
     (let remaining_size = GET_SIZE s (HEADER p) - newsize;
          old_class = GET_CLASS (GET_SIZE s (HEADER p));
          s1 = (if BIT s (HEADER p) = 0 then remove_from_free_list s old_class p else s);
          s2 = WRITE_DATA s1 (HEADER p) (PACK newsize 1);
          s3 = WRITE_DATA s2 (FOOTER s2 p) (PACK newsize 1);
          newblock = p + GET_SIZE s3 (HEADER p);
          s4 = WRITE_DATA s3 (HEADER newblock) (PACK remaining_size 0);
          s5 = WRITE_DATA s4 (FOOTER s4 newblock) (PACK remaining_size 0);
          new_class = GET_CLASS remaining_size;
          s6 = put_on_front_of_class_list s5 new_class newblock
      in if end_heap s6 = p then s6\<lparr>end_heap := newblock\<rparr> else s6)"

text \<open>The two scans of \<open>coalesce\<close>. Each step moves by a size read from memory, so neither
  scan is bounded by the code itself.\<close>

partial_function (option) coalesce_right ::
  "heap \<Rightarrow> ptr \<Rightarrow> size_t \<Rightarrow> (heap \<times> ptr \<times> size_t) option" where
  "coalesce_right s iterator total_size =
     (if iterator \<noteq> end_heap s \<and> BIT s (HEADER (RIGHT s iterator)) = 0 \<and>
         GET_SIZE s (HEADER (RIGHT s iterator)) > word_of_int (GET_MAX_DIM LIMIT_COALESCE)
      then
        let total_size' = total_size + GET_SIZE s (HEADER (RIGHT s iterator));
            class = GET_CLASS (GET_SIZE s (HEADER (RIGHT s iterator)));
            s' = remove_from_free_list s class (RIGHT s iterator)
        in coalesce_right s' (RIGHT s' iterator) total_size'
      else Some (s, iterator, total_size))"

partial_function (option) coalesce_left ::
  "heap \<Rightarrow> ptr \<Rightarrow> size_t \<Rightarrow> (heap \<times> ptr \<times> size_t) option" where
  "coalesce_left s p total_size =
     (if p \<noteq> first_block s \<and> BIT s (HEADER (LEFT s p)) = 0 \<and>
         GET_SIZE s (HEADER (LEFT s p)) > word_of_int (GET_MAX_DIM LIMIT_COALESCE)
      then
        let total_size' = total_size + GET_SIZE s (HEADER (LEFT s p));
            class = GET_CLASS (GET_SIZE s (HEADER (LEFT s p)));
            s' = remove_from_free_list s class (LEFT s p)
        in coalesce_left s' (LEFT s' p) total_size'
      else Some (s, p, total_size))"

definition coalesce :: "heap \<Rightarrow> ptr \<Rightarrow> (ptr \<times> heap) option" where
  "coalesce s p =
     (case coalesce_right s p (GET_SIZE s (HEADER p)) of
        None \<Rightarrow> None
      | Some (s1, iterator, total1) \<Rightarrow>
          (case coalesce_left s1 p total1 of
             None \<Rightarrow> None
           | Some (s2, p', total_size) \<Rightarrow>
               let s3 = WRITE_DATA s2 (HEADER p') (PACK total_size 0);
                   s4 = WRITE_DATA s3 (FOOTER s3 p') (PACK total_size 0);
                   s5 = (if end_heap s4 = iterator then s4\<lparr>end_heap := p'\<rparr> else s4)
               in Some (p', s5)))"

subsection \<open>Entry points\<close>

function init_table :: "heap \<Rightarrow> int \<Rightarrow> heap" where
  "init_table s i =
     (if i < CLASSES then init_table (WRITE_ADDR s (LOOKUP_TABLE s i) NULL) (i + 1) else s)"
  by pat_completeness auto
termination
  by (relation "measure (\<lambda>(s, i). nat (CLASSES - i))") auto

declare init_table.simps [simp del]

definition mm_init :: "heap \<Rightarrow> int \<times> heap" where
  "mm_init s =
     (let padd = ALIGN (LOOKUP_TABLE_SIZE + HEADER_SIZE) - LOOKUP_TABLE_SIZE - HEADER_SIZE;
          (r, s0) = mem_sbrk s (padd + LOOKUP_TABLE_SIZE + MBS);
          s1 = s0\<lparr>lookup_table := r\<rparr>
      in if r = NULL then (- 1, s1)
         else
           let s2 = s1\<lparr>lookup_table := lookup_table s1 + padd\<rparr>;
               s3 = init_table s2 0;
               s4 = s3\<lparr>first_block := lookup_table s3 + LOOKUP_TABLE_SIZE + HEADER_SIZE\<rparr>;
               s5 = WRITE_DATA s4 (HEADER (first_block s4)) (PACK MBS 0);
               s6 = WRITE_DATA s5 (FOOTER s5 (first_block s5)) (PACK MBS 0);
               s7 = put_on_front_of_class_list s6 0 (first_block s6)
           in (0, s7\<lparr>end_heap := first_block s7\<rparr>))"

text \<open>The tail of \<open>mm_malloc\<close>, reached when no list gave a block.\<close>

definition malloc_grow :: "heap \<Rightarrow> size_t \<Rightarrow> ptr \<times> heap" where
  "malloc_grow s newsize =
     (let (r, s1) = mem_sbrk s newsize in
      if r = NULL then (NULL, s1)
      else
        let p = r + HEADER_SIZE;
            s2 = WRITE_DATA s1 (HEADER p) (PACK newsize 1);
            s3 = WRITE_DATA s2 (FOOTER s2 p) (PACK newsize 1)
        in (p, s3\<lparr>end_heap := p\<rparr>))"

text \<open>The \<open>while (class < CLASSES)\<close> loop of \<open>mm_malloc\<close> followed by the tail.\<close>

function malloc_loop :: "heap \<Rightarrow> int \<Rightarrow> size_t \<Rightarrow> (ptr \<times> heap) option" where
  "malloc_loop s class newsize =
     (if class < CLASSES then
        (case search_free_list s class newsize of
           None \<Rightarrow> None
         | Some p \<Rightarrow>
             if p \<noteq> NULL then
               (let remaining_size = GET_SIZE s (HEADER p) - newsize in
                if remaining_size \<le> MBS then
                  (let s1 = WRITE_DATA s (HEADER p) (PACK (GET_SIZE s (HEADER p)) 1);
                       s2 = WRITE_DATA s1 (FOOTER s1 p) (PACK (GET_SIZE s1 (HEADER p)) 1)
                   in Some (p, remove_from_free_list s2 class p))
                else Some (p, split s p newsize))
             else malloc_loop s (class + 1) newsize)
      else Some (malloc_grow s newsize))"
  by pat_completeness auto
termination
  by (relation "measure (\<lambda>(s, class, newsize). nat (CLASSES - class))") auto

declare malloc_loop.simps [simp del]

definition mm_malloc :: "heap \<Rightarrow> size_t \<Rightarrow> (ptr \<times> heap) option" where
  "mm_malloc s sz =
     (let newsize = ALIGN (sz + HF_OVERHEAD) in
      if sz \<le> 0 then Some (NULL, s)
      else
        let newsize' = (if newsize < MBS then MBS else newsize)
        in malloc_loop s (GET_CLASS newsize') newsize')"

definition mm_free :: "heap \<Rightarrow> ptr \<Rightarrow> heap option" where
  "mm_free s p =
     (if p = NULL then Some s
      else
        let s1 = WRITE_DATA s (HEADER p) (PACK (GET_SIZE s (HEADER p)) 0);
            s2 = WRITE_DATA s1 (FOOTER s1 p) (PACK (GET_SIZE s1 (HEADER p)) 0);
            class = GET_CLASS (GET_SIZE s2 (HEADER p))
        in if class > LIMIT_COALESCE then
             (case coalesce s2 p of
                None \<Rightarrow> None
              | Some (p', s3) \<Rightarrow>
                  Some (put_on_front_of_class_list s3 (GET_CLASS (GET_SIZE s3 (HEADER p'))) p'))
           else Some (put_on_front_of_class_list s2 class p))"

partial_function (option) simulate_right_coalesce_loop ::
  "heap \<Rightarrow> ptr \<Rightarrow> size_t \<Rightarrow> size_t \<Rightarrow> int option" where
  "simulate_right_coalesce_loop s p diff total_size =
     (if p \<noteq> end_heap s \<and> BIT s (HEADER (RIGHT s p)) = 0 then
        (let total_size' = total_size + GET_SIZE s (HEADER (RIGHT s p))
         in if total_size' \<ge> diff then Some 1
            else simulate_right_coalesce_loop s (RIGHT s p) diff total_size')
      else Some 0)"

definition simulate_right_coalesce :: "heap \<Rightarrow> ptr \<Rightarrow> size_t \<Rightarrow> int option" where
  "simulate_right_coalesce s p diff = simulate_right_coalesce_loop s p diff 0"

text \<open>The absorbing loop of \<open>mm_realloc\<close>; it returns the state, \<open>last\<close> (written \<open>lst\<close>) and
  \<open>total_size\<close>.\<close>

partial_function (option) realloc_absorb ::
  "heap \<Rightarrow> ptr \<Rightarrow> ptr \<Rightarrow> size_t \<Rightarrow> size_t \<Rightarrow> (heap \<times> ptr \<times> size_t) option" where
  "realloc_absorb s iterator lst diff total_size =
     (if iterator \<noteq> end_heap s \<and> BIT s (HEADER (RIGHT s iterator)) = 0 then
        (let total_size' = total_size + GET_SIZE s (HEADER (RIGHT s iterator));
             class = GET_CLASS (GET_SIZE s (HEADER (RIGHT s iterator)));
             s' = remove_from_free_list s class (RIGHT s iterator);
             lst' = RIGHT s' iterator;
             iterator' = RIGHT s' iterator
         in if total_size' \<ge> diff then Some (s', lst', total_size')
            else realloc_absorb s' iterator' lst' diff total_size')
      else Some (s, lst, total_size))"

text \<open>\<open>memcpy\<close> moves whole cells: the allocator copies \<open>block_size - HF_OVERHEAD\<close>
  bytes, a multiple of the cell size.\<close>

primrec memcpy_cells :: "heap \<Rightarrow> ptr \<Rightarrow> ptr \<Rightarrow> nat \<Rightarrow> heap" where
  "memcpy_cells s dst src 0 = s"
| "memcpy_cells s dst src (Suc k) =
     memcpy_cells (WRITE_DATA s dst (READ_DATA s src)) (dst + 8) (src + 8) k"

definition memcpy :: "heap \<Rightarrow> ptr \<Rightarrow> ptr \<Rightarrow> size_t \<Rightarrow> heap" where
  "memcpy s dst src n = memcpy_cells s dst src (unat n div 8)"

definition mm_realloc :: "heap \<Rightarrow> ptr \<Rightarrow> size_t \<Rightarrow> (ptr \<times> heap) option" where
  "mm_realloc s p sz =
     (if p = NULL \<and> sz > 0 then mm_malloc s sz
      else if sz = 0 then
        (case mm_free s p of None \<Rightarrow> None | Some s' \<Rightarrow> Some (p, s'))
      else if p \<noteq> NULL \<and> sz > 0 then
        (let block_size = GET_SIZE s (HEADER p);
             newsize0 = ALIGN (sz + HF_OVERHEAD);
             newsize = (if newsize0 < MBS then MBS else newsize0)
         in if newsize = block_size then Some (p, s)
            else if newsize > block_size then
              (let diff = newsize - block_size in
               case simulate_right_coalesce s p diff of
                 None \<Rightarrow> None
               | Some sim \<Rightarrow>
                   if sim \<noteq> 0 then
                     (case realloc_absorb s p p diff 0 of
                        None \<Rightarrow> None
                      | Some (s1, lst, total_size) \<Rightarrow>
                          let s2 = WRITE_DATA s1 (HEADER p) (PACK (block_size + total_size) 1);
                              s3 = WRITE_DATA s2 (FOOTER s2 p) (PACK (block_size + total_size) 1)
                          in Some (p, if lst = end_heap s3 then s3\<lparr>end_heap := p\<rparr> else s3))
                   else
                     (case mm_malloc s newsize of
                        None \<Rightarrow> None
                      | Some (new_ptr, s1) \<Rightarrow>
                          if new_ptr = NULL then Some (NULL, s1)
                          else
                            let s2 = memcpy s1 new_ptr p (block_size - HF_OVERHEAD) in
                            (case mm_free s2 p of
                               None \<Rightarrow> None
                             | Some s3 \<Rightarrow> Some (new_ptr, s3))))
            else
              (let diff = block_size - newsize in
               if diff \<le> MBS then Some (p, s)
               else Some (p, split s p newsize)))
      else Some (NULL, s))"

subsection \<open>Integrity checker\<close>

text \<open>The two \<open>printf\<close> diagnostics, as values; \<open>mm_check\<close> returns the list it prints,
  in order.\<close>

datatype check_error = Escaped ptr ptr | NotFree ptr

partial_function (option) check_heap_loop ::
  "heap \<Rightarrow> ptr \<Rightarrow> check_error list \<Rightarrow> check_error list option" where
  "check_heap_loop s p errs =
     (if p \<noteq> end_heap s then
        check_heap_loop s (RIGHT s p)
          (if BIT s (HEADER p) = 0 \<and>
              GET_SIZE s (HEADER p) > word_of_int (GET_MAX_DIM LIMIT_COALESCE) \<and>
              BIT s (HEADER (RIGHT s p)) = 0 \<and>
              GET_SIZE s (HEADER (RIGHT s p)) > word_of_int (GET_MAX_DIM LIMIT_COALESCE)
           then errs @ [Escaped p (RIGHT s p)] else errs)
      else Some errs)"

partial_function (option) check_list_loop ::
  "heap \<Rightarrow> ptr \<Rightarrow> check_error list \<Rightarrow> check_error list option" where
  "check_list_loop s fl errs =
     (if READ_ADDR s (NEXT fl) \<noteq> NULL then
        check_list_loop s (READ_ADDR s (NEXT fl))
          (if BIT s (HEADER (READ_ADDR s (NEXT fl))) \<noteq> 0
           then errs @ [NotFree (READ_ADDR s (NEXT fl))] else errs)
      else Some errs)"

function check_classes :: "heap \<Rightarrow> int \<Rightarrow> check_error list \<Rightarrow> check_error list option" where
  "check_classes s i errs =
     (if i < CLASSES then
        (let fl = READ_ADDR s (LOOKUP_TABLE s i) in
         if fl = NULL then Some errs
         else
           (case check_list_loop s fl errs of
              None \<Rightarrow> None
            | Some errs' \<Rightarrow> check_classes s (i + 1) errs'))
      else Some errs)"
  by pat_completeness auto
termination
  by (relation "measure (\<lambda>(s, i, errs). nat (CLASSES - i))") auto

declare check_classes.simps [simp del]

definition mm_check :: "heap \<Rightarrow> check_error list option" where
  "mm_check s =
     (case check_heap_loop s (first_block s) [] of
        None \<Rightarrow> None
      | Some errs \<Rightarrow> check_classes s 0 errs)"


subsection \<open>Free lists as chains\<close>

text \<open>\<open>free_path s x bs\<close>: following the \<open>next\<close> links from \<open>x\<close> visits exactly the blocks
  \<open>bs\<close>, none of them null, and then reaches the null pointer.\<close>

fun free_path :: "heap \<Rightarrow> ptr \<Rightarrow> ptr list \<Rightarrow> bool" where
  "free_path s x [] = (x = NULL)"
| "free_path s x (b # bs) = (x = b \<and> b \<noteq> NULL \<and> free_path s (READ_ADDR s (NEXT b)) bs)"

subsection \<open>Sequences of public operations\<close>

text \<open>A client program is a list of calls; \<open>Free i\<close> and \<open>Realloc i n\<close> name the pointer
  returned by the \<open>i\<close>-th earlier allocating call. \<open>run\<close> threads the state through the
  calls and collects the pointers returned by \<open>mm_malloc\<close> and \<open>mm_realloc\<close>.\<close>

datatype call = Malloc size_t | Free nat | Realloc nat size_t

fun run :: "heap \<Rightarrow> call list \<Rightarrow> ptr list \<Rightarrow> (ptr list \<times> heap) option" where
  "run s [] ps = Some (ps, s)"
| "run s (Malloc n # cs) ps =
     (case mm_malloc s n of None \<Rightarrow> None | Some (p, s') \<Rightarrow> run s' cs (ps @ [p]))"
| "run s (Free i # cs) ps =
     (if i < length ps
      then (case mm_free s (ps ! i) of None \<Rightarrow> None | Some s' \<Rightarrow> run s' cs ps)
      else None)"
| "run s (Realloc i n # cs) ps =
     (if i < length ps
      then (case mm_realloc s (ps ! i) n of None \<Rightarrow> None | Some (p, s') \<Rightarrow> run s' cs (ps @ [p]))
      else None)"

text \<open>A zeroed store whose break is at \<open>0x1000\<close> and whose limit is \<open>lim\<close>, before
  \<open>mm_init\<close>; the heap after \<open>mm_init\<close>; the state and the pointers after a client
  program.\<close>

definition heap0 :: "ptr \<Rightarrow> heap" where
  "heap0 lim = \<lparr>mem = (\<lambda>_. 0), lookup_table = 0, first_block = 0, end_heap = 0,
     mem_brk = 0x1000, mem_max_addr = lim\<rparr>"

definition started :: "ptr \<Rightarrow> heap" where
  "started lim = snd (mm_init (heap0 lim))"

definition run_state :: "ptr \<Rightarrow> call list \<Rightarrow> heap" where
  "run_state lim cs = (case run (started lim) cs [] of Some (ps, s) \<Rightarrow> s | None \<Rightarrow> started lim)"

definition run_ptrs :: "ptr \<Rightarrow> call list \<Rightarrow> ptr list option" where
  "run_ptrs lim cs = map_option fst (run (started lim) cs [])"

definition table_heads :: "heap \<Rightarrow> ptr list" where
  "table_heads s = map (\<lambda>i. READ_ADDR s (LOOKUP_TABLE s i)) [0..19]"

text \<open>The first invariant \<open>mm_check\<close> looks for: the block at \<open>b\<close> and its right neighbour
  are both free and both above the coalescing threshold.\<close>

definition adjacent_free_big :: "heap \<Rightarrow> ptr \<Rightarrow> bool" where
  "adjacent_free_big s b \<longleftrightarrow>
     b \<noteq> end_heap s \<and>
     BIT s (HEADER b) = 0 \<and> GET_SIZE s (HEADER b) > word_of_int (GET_MAX_DIM LIMIT_COALESCE) \<and>
     BIT s (HEADER (RIGHT s b)) = 0 \<and>
     GET_SIZE s (HEADER (RIGHT s b)) > word_of_int (GET_MAX_DIM LIMIT_COALESCE)"

text \<open>What the second invariant of \<open>mm_check\<close> must exclude: \<open>b\<close> is on the list of
  class \<open>c\<close>, its in-use bit is set, and \<open>mm_check\<close> returns without reporting it.\<close>

definition listed_used_unreported :: "heap \<Rightarrow> int \<Rightarrow> ptr list \<Rightarrow> ptr \<Rightarrow> bool" where
  "listed_used_unreported s c bs b \<longleftrightarrow>
     0 \<le> c \<and> c < CLASSES \<and> free_path s (READ_ADDR s (LOOKUP_TABLE s c)) bs \<and> b \<in> set bs \<and>
     BIT s (HEADER b) \<noteq> 0 \<and>
     (case mm_check s of None \<Rightarrow> False | Some errs \<Rightarrow> NotFree b \<notin> set errs)"

subsection \<open>The free-list index as an invariant\<close>

text \<open>\<open>dll s pv x bs\<close>: starting at \<open>x\<close>, the \<open>next\<close> links visit exactly the blocks
  \<open>bs\<close> and end at null, and the \<open>prev\<close> link of each block is its predecessor (\<open>pv\<close> for
  the first). \<open>lists_ok s L\<close>: for every class \<open>c\<close> of the table, the list whose head is in
  slot \<open>c\<close> is the chain \<open>L c\<close>; no block is on two lists or twice on one; the link cells of
  the listed blocks and the slots of the table are pairwise different cells.\<close>


fun dll :: "heap \<Rightarrow> ptr \<Rightarrow> ptr \<Rightarrow> ptr list \<Rightarrow> bool" where
  "dll s pv x [] = (x = NULL)"
| "dll s pv x (b # bs) =
     (x = b \<and> b \<noteq> NULL \<and> READ_ADDR s (PREV b) = pv \<and> dll s b (READ_ADDR s (NEXT b)) bs)"

definition classes :: "int set" where
  "classes = {0..<CLASSES}"

definition nodes :: "(int \<Rightarrow> ptr list) \<Rightarrow> ptr set" where
  "nodes L = (\<Union>c\<in>classes. set (L c))"

definition index_cells :: "heap \<Rightarrow> (int \<Rightarrow> ptr list) \<Rightarrow> ptr set" where
  "index_cells s L = LOOKUP_TABLE s ` classes \<union> PREV ` nodes L \<union> NEXT ` nodes L"

definition lists_ok :: "heap \<Rightarrow> (int \<Rightarrow> ptr list) \<Rightarrow> bool" where
  "lists_ok s L \<longleftrightarrow>
     (\<forall>c\<in>classes. dll s NULL (READ_ADDR s (LOOKUP_TABLE s c)) (L c) \<and> distinct (L c)) \<and>
     (\<forall>c\<in>classes. \<forall>c'\<in>classes. c \<noteq> c' \<longrightarrow> set (L c) \<inter> set (L c') = {}) \<and>
     (\<forall>a\<in>nodes L. \<forall>b\<in>nodes L. PREV a \<noteq> NEXT b) \<and>
     (\<forall>c\<in>classes. \<forall>b\<in>nodes L. LOOKUP_TABLE s c \<noteq> PREV b \<and> LOOKUP_TABLE s c \<noteq> NEXT b)"

text \<open>\<open>fresh_block s L q\<close>: the block \<open>q\<close> is not null and on no list, and its two link cells
  are cells of no listed block and no slot of the table.\<close>

definition fresh_block :: "heap \<Rightarrow> (int \<Rightarrow> ptr list) \<Rightarrow> ptr \<Rightarrow> bool" where
  "fresh_block s L q \<longleftrightarrow>
     q \<noteq> NULL \<and> q \<notin> nodes L \<and>
     (\<forall>b\<in>nodes L. PREV q \<noteq> NEXT b \<and> PREV b \<noteq> NEXT q) \<and>
     (\<forall>c\<in>classes. LOOKUP_TABLE s c \<noteq> PREV q \<and> LOOKUP_TABLE s c \<noteq> NEXT q)"



text \<open>What payload preservation excludes: \<open>mm_realloc s p n\<close> returns a non-null pointer, \<open>n\<close>
  is at least the payload length of \<open>p\<close>, and the word at the offset \<open>off\<close> inside the
  original payload is not the word found at that offset of the returned block.\<close>

definition payload_lost :: "heap \<Rightarrow> ptr \<Rightarrow> size_t \<Rightarrow> size_t \<Rightarrow> bool" where
  "payload_lost s p n off \<longleftrightarrow>
     (case mm_realloc s p n of
        None \<Rightarrow> False
      | Some (p', s') \<Rightarrow>
          p' \<noteq> NULL \<and> BIT s (HEADER p) = 1 \<and>
          GET_SIZE s (HEADER p) - HF_OVERHEAD \<le> n \<and>
          off < GET_SIZE s (HEADER p) - HF_OVERHEAD \<and>
          READ_DATA s' (p' + off) \<noteq> READ_DATA s (p + off))"

text \<open>A client program continued from a given state and pointer list.\<close>

definition run_from :: "heap \<Rightarrow> ptr list \<Rightarrow> call list \<Rightarrow> heap" where
  "run_from s ps cs = (case run s cs ps of Some (ps', s') \<Rightarrow> s' | None \<Rightarrow> s)"

text \<open>\<open>class20_block_listed s p c bs\<close>: \<open>p\<close> is a used block of at least \<open>64 * 2^19\<close> bytes,
  \<open>mm_free s p\<close> returns, the class computed from the final size of the block is 20 and the
  block is marked free, and yet the block is on the list of class \<open>c\<close>, which is the chain
  \<open>bs\<close>.\<close>

definition class20_block_listed :: "heap \<Rightarrow> ptr \<Rightarrow> int \<Rightarrow> ptr list \<Rightarrow> bool" where
  "class20_block_listed s p c bs \<longleftrightarrow>
     (case mm_free s p of
        None \<Rightarrow> False
      | Some s' \<Rightarrow>
          p \<noteq> NULL \<and> BIT s (HEADER p) = 1 \<and> 64 * 2 ^ 19 \<le> unat (GET_SIZE s (HEADER p)) \<and>
          GET_CLASS (GET_SIZE s' (HEADER p)) = 20 \<and> BIT s' (HEADER p) = 0 \<and>
          0 \<le> c \<and> c < CLASSES \<and> free_path s' (READ_ADDR s' (LOOKUP_TABLE s' c)) bs \<and> p \<in> set bs)"

subsection \<open>What the two loops of coalesce consume\<close>









section \<open>Evaluation\<close>

lemmas macro_defs = NULL_def ALIGNMENT_def CLASSES_def LIMIT_COALESCE_def ALIGN_def ADDRESS_SIZE_def
  LOOKUP_TABLE_SIZE_def LOOKUP_TABLE_def GET_CLASS_def GET_MAX_DIM_def HEADER_SIZE_def FOOTER_SIZE_def
  MAX_OVERHEAD_def HF_OVERHEAD_def MBS_def WRITE_DATA_def READ_DATA_def WRITE_ADDR_def READ_ADDR_def
  PACK_def GET_SIZE_def BIT_def HEADER_def FOOTER_def PREV_def NEXT_def LEFT_def RIGHT_def

lemmas op_defs = mem_sbrk_def remove_from_free_list_def put_on_front_of_class_list_def
  search_free_list_def split_def coalesce_def mm_init_def malloc_grow_def mm_malloc_def mm_free_def
  simulate_right_coalesce_def memcpy_def mm_realloc_def mm_check_def

lemmas loop_simps = search_loop.simps coalesce_right.simps coalesce_left.simps
  simulate_right_coalesce_loop.simps realloc_absorb.simps check_heap_loop.simps check_list_loop.simps
  GET_CLASS_loop.simps init_table.simps malloc_loop.simps check_classes.simps

lemmas run_defs = heap0_def started_def run_state_def run_ptrs_def table_heads_def
  adjacent_free_big_def upto.simps

lemmas eval_simps = macro_defs op_defs loop_simps run_defs Let_def

lemmas eval_congs = let_weak_cong prod.case_cong_weak



section \<open>Size classes\<close>

lemma unat_double:
  fixes v :: "64 word"
  assumes "unat v = 2 ^ k" "k < 63"
  shows "unat (v * 2) = 2 ^ (k + 1)"
proof -
  have "(2::nat) ^ (k + 1) < 2 ^ 64"
    using assms(2) by (intro power_strict_increasing) simp_all
  then have "unat v * unat (2::64 word) < 2 ^ LENGTH(64)"
    using assms(1) by simp
  then have "unat (v * 2) = unat v * unat (2::64 word)"
    by (simp only: unat_mult_lem)
  then show ?thesis using assms(1) by simp
qed

lemma GET_CLASS_loop_spec:
  "0 \<le> ind \<Longrightarrow> ind \<le> 20 \<Longrightarrow> unat val = 2 ^ (nat ind + 6) \<Longrightarrow>
   ind \<le> GET_CLASS_loop ind val sz \<and> GET_CLASS_loop ind val sz \<le> 20 \<and>
   (GET_CLASS_loop ind val sz < 20 \<longrightarrow> unat sz < 2 ^ (nat (GET_CLASS_loop ind val sz) + 6)) \<and>
   (\<forall>c. ind \<le> c \<and> c < GET_CLASS_loop ind val sz \<longrightarrow> 2 ^ (nat c + 6) \<le> unat sz)"
proof (induction ind val sz rule: GET_CLASS_loop.induct)
  case (1 ind val sz)
  note uv = \<open>unat val = 2 ^ (nat ind + 6)\<close>
  show ?case
  proof (cases "ind < 20")
    case False
    then have "GET_CLASS_loop ind val sz = ind" by (simp add: GET_CLASS_loop.simps[of ind] CLASSES_def)
    with False 1(2,3) show ?thesis by simp
  next
    case lt: True
    show ?thesis
    proof (cases "val > sz")
      case True
      then have "unat sz < 2 ^ (nat ind + 6)" using uv by (simp add: word_less_nat_alt)
      moreover have "GET_CLASS_loop ind val sz = ind" using True lt by (simp add: GET_CLASS_loop.simps[of ind] CLASSES_def)
      ultimately show ?thesis using lt by simp
    next
      case False
      then have ge: "2 ^ (nat ind + 6) \<le> unat sz" using uv by (simp add: word_less_nat_alt not_less)
      have "nat ind + 6 < 63" using lt by simp
      from unat_double[OF uv this]
      have v2: "unat (val * 2) = 2 ^ (nat (ind + 1) + 6)"
        using 1(2) by (simp add: nat_add_distrib)
      have c1: "ind < CLASSES" using lt by (simp add: CLASSES_def)
      have ih: "ind + 1 \<le> GET_CLASS_loop (ind + 1) (val * 2) sz \<and>
          GET_CLASS_loop (ind + 1) (val * 2) sz \<le> 20 \<and>
          (GET_CLASS_loop (ind + 1) (val * 2) sz < 20 \<longrightarrow>
             unat sz < 2 ^ (nat (GET_CLASS_loop (ind + 1) (val * 2) sz) + 6)) \<and>
          (\<forall>c. ind + 1 \<le> c \<and> c < GET_CLASS_loop (ind + 1) (val * 2) sz \<longrightarrow> 2 ^ (nat c + 6) \<le> unat sz)"
        using 1(1)[OF c1 False _ _ v2] lt 1(2) by simp
      have eq: "GET_CLASS_loop ind val sz = GET_CLASS_loop (ind + 1) (val * 2) sz"
        using c1 False by (simp add: GET_CLASS_loop.simps[of ind])
      have all: "2 ^ (nat c + 6) \<le> unat sz"
        if c: "ind \<le> c \<and> c < GET_CLASS_loop (ind + 1) (val * 2) sz" for c
      proof (cases "c = ind")
        case True then show ?thesis using ge by simp
      next
        case False
        then have "ind + 1 \<le> c" using c by simp
        then show ?thesis using ih c by blast
      qed
      show ?thesis
        unfolding eq using ih all by auto
    qed
  qed
qed

text \<open>C8 (as amended). For every size, \<open>GET_CLASS\<close> returns an index between 0 and 20
  inclusive. When the index is below 20 it is the smallest \<open>c\<close> with \<open>64 * 2^c > size\<close>:
  the size is below \<open>64 * 2^c\<close> and at least \<open>64 * 2^c'\<close> for every smaller \<open>c'\<close>. So
  class 0 holds the sizes below 64, class \<open>c\<close> the sizes from \<open>64 * 2^(c-1)\<close> up to
  \<open>64 * 2^c - 1\<close>, and every size from \<open>64 * 2^19\<close> on gets the index 20, which names no
  list.\<close>

theorem GET_CLASS_smallest:
  "0 \<le> GET_CLASS sz \<and> GET_CLASS sz \<le> 20 \<and>
   (GET_CLASS sz < 20 \<longrightarrow> unat sz < 64 * 2 ^ nat (GET_CLASS sz)) \<and>
   (\<forall>c. 0 \<le> c \<and> c < GET_CLASS sz \<longrightarrow> 64 * 2 ^ nat c \<le> unat sz)"
proof -
  have "unat (64::64 word) = 2 ^ (nat 0 + 6)" by simp
  from GET_CLASS_loop_spec[OF _ _ this, of sz]
  show ?thesis
    unfolding GET_CLASS_def by (simp add: power_add mult.commute)
qed

section \<open>Placement search\<close>

lemma search_loop_best_fit:
  "free_path s rover (b # bs) \<Longrightarrow>
   (best \<noteq> NULL \<longrightarrow> need \<le> GET_SIZE s (HEADER best)) \<Longrightarrow>
   \<exists>r. search_loop s need rover best = Some r \<and>
       (r = NULL \<longleftrightarrow> best = NULL \<and> (\<forall>x \<in> set (b # bs). GET_SIZE s (HEADER x) < need)) \<and>
       (r \<noteq> NULL \<longrightarrow> (r = best \<or> r \<in> set (b # bs)) \<and> need \<le> GET_SIZE s (HEADER r) \<and>
          (best \<noteq> NULL \<longrightarrow> GET_SIZE s (HEADER r) \<le> GET_SIZE s (HEADER best)) \<and>
          (\<forall>x \<in> set (b # bs). need \<le> GET_SIZE s (HEADER x) \<longrightarrow>
               GET_SIZE s (HEADER r) \<le> GET_SIZE s (HEADER x)))"
proof (induction bs arbitrary: rover b best)
  case Nil
  then have rb: "rover = b" "b \<noteq> NULL" and nx: "READ_ADDR s (NEXT b) = NULL" by simp_all
  show ?case
    apply (subst search_loop.simps)
    using Nil.prems(2) rb nx
    by (auto simp: Let_def)
next
  case (Cons b' bs)
  then have rb: "rover = b" "b \<noteq> NULL" and nx: "READ_ADDR s (NEXT b) = b'" "b' \<noteq> NULL"
    and path: "free_path s b' (b' # bs)" by simp_all
  define hit where "hit \<longleftrightarrow> need \<le> GET_SIZE s (HEADER b) \<and>
     (best = NULL \<or> GET_SIZE s (HEADER b) < GET_SIZE s (HEADER best))"
  define best' where "best' = (if hit then b else best)"
  have pre': "best' \<noteq> NULL \<longrightarrow> need \<le> GET_SIZE s (HEADER best')"
    using Cons.prems(2) by (auto simp: best'_def hit_def)
  show ?case
  proof (cases "hit \<and> GET_SIZE s (HEADER best') = need")
    case True
    then have "search_loop s need rover best = Some b"
      apply (subst search_loop.simps)
      using rb by (auto simp: Let_def hit_def best'_def)
    moreover have "GET_SIZE s (HEADER b) = need" using True by (auto simp: best'_def)
    ultimately show ?thesis using rb True Cons.prems(2)
      by (auto simp: hit_def)
  next
    case False
    then have step: "search_loop s need rover best = search_loop s need b' best'"
      apply (subst search_loop.simps)
      using rb nx by (auto simp: Let_def hit_def best'_def)
    from Cons.IH[OF path pre'] obtain r where
      r: "search_loop s need b' best' = Some r"
         "r = NULL \<longleftrightarrow> best' = NULL \<and> (\<forall>x \<in> set (b' # bs). GET_SIZE s (HEADER x) < need)"
         "r \<noteq> NULL \<longrightarrow> (r = best' \<or> r \<in> set (b' # bs)) \<and> need \<le> GET_SIZE s (HEADER r) \<and>
          (best' \<noteq> NULL \<longrightarrow> GET_SIZE s (HEADER r) \<le> GET_SIZE s (HEADER best')) \<and>
          (\<forall>x \<in> set (b' # bs). need \<le> GET_SIZE s (HEADER x) \<longrightarrow>
               GET_SIZE s (HEADER r) \<le> GET_SIZE s (HEADER x))"
      by blast
    have a: "r = NULL \<longleftrightarrow> best = NULL \<and> (\<forall>x \<in> set (b # b' # bs). GET_SIZE s (HEADER x) < need)"
      using r(2) rb Cons.prems(2) by (auto simp: best'_def hit_def not_le)
    have b1: "r \<noteq> NULL \<Longrightarrow> (r = best \<or> r \<in> set (b # b' # bs)) \<and> need \<le> GET_SIZE s (HEADER r)"
      using r(3) by (auto simp: best'_def split: if_splits)
    have b2: "r \<noteq> NULL \<Longrightarrow> best \<noteq> NULL \<Longrightarrow> GET_SIZE s (HEADER r) \<le> GET_SIZE s (HEADER best)"
      using r(3) rb by (auto simp: best'_def hit_def split: if_splits)
    have b3: "r \<noteq> NULL \<Longrightarrow> x \<in> set (b # b' # bs) \<Longrightarrow> need \<le> GET_SIZE s (HEADER x) \<Longrightarrow>
               GET_SIZE s (HEADER r) \<le> GET_SIZE s (HEADER x)" for x
      using r(3) rb Cons.prems(2) by (auto simp: best'_def hit_def not_less split: if_splits)
    show ?thesis
      unfolding step using r(1) a b1 b2 b3 by blast
  qed
qed

text \<open>C7. Under best-fit, for a class \<open>c\<close> in 0..19 whose list is the null-terminated chain
  \<open>bs\<close>, \<open>search_free_list\<close> returns; it returns the null pointer exactly when no block of
  the list has size at least \<open>need\<close>, and otherwise a block of the list whose size is at
  least \<open>need\<close> and minimal among the blocks of the list that are large enough.\<close>

theorem search_free_list_best_fit:
  assumes "0 \<le> c" "c < CLASSES"
    and "free_path s (READ_ADDR s (LOOKUP_TABLE s c)) bs"
  shows "\<exists>r. search_free_list s c need = Some r \<and>
       (r = NULL \<longleftrightarrow> (\<forall>x \<in> set bs. GET_SIZE s (HEADER x) < need)) \<and>
       (r \<noteq> NULL \<longrightarrow> r \<in> set bs \<and> need \<le> GET_SIZE s (HEADER r) \<and>
          (\<forall>x \<in> set bs. need \<le> GET_SIZE s (HEADER x) \<longrightarrow>
               GET_SIZE s (HEADER r) \<le> GET_SIZE s (HEADER x)))"
proof (cases bs)
  case Nil
  with assms show ?thesis by (simp add: search_free_list_def)
next
  case (Cons b bs')
  with assms(3) have hd: "READ_ADDR s (LOOKUP_TABLE s c) = b" "b \<noteq> NULL" by simp_all
  have "search_free_list s c need = search_loop s need b NULL"
    using assms(1,2) hd by (simp add: search_free_list_def)
  moreover from search_loop_best_fit[of s b b bs' NULL need] assms(3) Cons hd
  obtain r where "search_loop s need b NULL = Some r"
       "r = NULL \<longleftrightarrow> (\<forall>x \<in> set (b # bs'). GET_SIZE s (HEADER x) < need)"
       "r \<noteq> NULL \<longrightarrow> r \<in> set (b # bs') \<and> need \<le> GET_SIZE s (HEADER r) \<and>
          (\<forall>x \<in> set (b # bs'). need \<le> GET_SIZE s (HEADER x) \<longrightarrow>
               GET_SIZE s (HEADER r) \<le> GET_SIZE s (HEADER x))"
    by auto
  ultimately show ?thesis using Cons by auto
qed

section \<open>Allocation failure inside resize\<close>

lemma mem_sbrk_ok_nonnull:
  assumes "mem_sbrk s n = (r, s')" "r \<noteq> NULL" "MBS \<le> n"
  shows "r + HEADER_SIZE \<noteq> NULL"
proof -
  have le: "unat (mem_brk s) + unat n \<le> unat (mem_max_addr s)" and r: "r = mem_brk s"
    using assms(1,2) by (auto simp: mem_sbrk_def split: if_splits)
  have "unat (mem_max_addr s) < 2 ^ 64" using unsigned_less[of "mem_max_addr s"] by simp
  moreover have "32 \<le> unat n" using assms(3) by (simp add: MBS_def ALIGN_def MAX_OVERHEAD_def HEADER_SIZE_def FOOTER_SIZE_def ADDRESS_SIZE_def ALIGNMENT_def word_le_nat_alt)
  ultimately have "unat r + unat (8::64 word) < 2 ^ LENGTH(64)" using le r by simp
  then have "unat (r + 8) = unat r + unat (8::64 word)" by (simp only: unat_add_lem)
  then have "unat (r + 8) \<noteq> 0" by simp
  then show ?thesis by (auto simp: HEADER_SIZE_def NULL_def)
qed

lemma mem_sbrk_NULL_unchanged:
  "mem_sbrk s n = (NULL, s') \<Longrightarrow> mem_brk s \<noteq> NULL \<Longrightarrow> s' = s"
  by (auto simp: mem_sbrk_def split: if_splits)

lemma malloc_grow_NULL_unchanged:
  assumes "malloc_grow s n = (NULL, s')" "mem_brk s \<noteq> NULL" "MBS \<le> n"
  shows "s' = s"
proof (cases "mem_sbrk s n")
  case (Pair r s1)
  show ?thesis
  proof (cases "r = NULL")
    case True
    with Pair assms(1) have "s' = s1" by (simp add: malloc_grow_def)
    with mem_sbrk_NULL_unchanged[of s n s1] Pair True assms(2) show ?thesis by simp
  next
    case False
    from mem_sbrk_ok_nonnull[OF Pair False assms(3)] Pair False assms(1)
    show ?thesis by (simp add: malloc_grow_def Let_def)
  qed
qed

lemma malloc_loop_NULL_unchanged:
  "malloc_loop s c n = Some (NULL, s') \<Longrightarrow> mem_brk s \<noteq> NULL \<Longrightarrow> MBS \<le> n \<Longrightarrow> s' = s"
proof (induction s c n rule: malloc_loop.induct)
  case (1 s c n)
  show ?case
  proof (cases "c < CLASSES")
    case False
    with 1(2) have "malloc_grow s n = (NULL, s')" by (simp add: malloc_loop.simps[of s c])
    from malloc_grow_NULL_unchanged[OF this 1(3,4)] show ?thesis .
  next
    case True
    show ?thesis
    proof (cases "search_free_list s c n")
      case None
      with True 1(2) show ?thesis by (simp add: malloc_loop.simps[of s c])
    next
      case (Some p)
      show ?thesis
      proof (cases "p = NULL")
        case pn: True
        with True Some 1(2) have "malloc_loop s (c + 1) n = Some (NULL, s')"
          by (simp add: malloc_loop.simps[of s c])
        from 1(1)[OF True Some _ this 1(3,4)] pn show ?thesis by simp
      next
        case False
        with True Some 1(2) show ?thesis
          by (auto simp: malloc_loop.simps[of s c] Let_def split: if_splits)
      qed
    qed
  qed
qed

lemma mm_malloc_NULL_unchanged:
  assumes "mm_malloc s n = Some (NULL, s')" "mem_brk s \<noteq> NULL"
  shows "s' = s"
proof (cases "n \<le> 0")
  case True
  with assms(1) show ?thesis by (simp add: mm_malloc_def Let_def)
next
  case False
  define m where "m = (if ALIGN (n + HF_OVERHEAD) < MBS then MBS else ALIGN (n + HF_OVERHEAD))"
  have "MBS \<le> m" by (auto simp: m_def not_less)
  moreover have "malloc_loop s (GET_CLASS m) m = Some (NULL, s')"
    using assms(1) False by (simp add: mm_malloc_def Let_def m_def)
  ultimately show ?thesis using malloc_loop_NULL_unchanged assms(2) by blast
qed

text \<open>C2. When \<open>mm_realloc\<close> has to grow a block, the simulation of the absorption to the
  right fails and the internal \<open>mm_malloc\<close> returns the null pointer, \<open>mm_realloc\<close> returns
  the null pointer and the whole state (memory, hence every header, footer, payload and list
  link, the table, \<open>end_heap\<close>, the break) is the one before the call.\<close>

theorem mm_realloc_alloc_failure_unchanged:
  assumes "p \<noteq> NULL" and "sz > 0"
    and "newsize = (if ALIGN (sz + HF_OVERHEAD) < MBS then MBS else ALIGN (sz + HF_OVERHEAD))"
    and "newsize > GET_SIZE s (HEADER p)"
    and "simulate_right_coalesce s p (newsize - GET_SIZE s (HEADER p)) = Some 0"
    and "mm_malloc s newsize = Some (NULL, s')"
    and "mem_brk s \<noteq> NULL"
  shows "mm_realloc s p sz = Some (NULL, s)"
proof -
  have "s' = s" using mm_malloc_NULL_unchanged[OF assms(6,7)] .
  moreover have "sz \<noteq> 0" using assms(2) by auto
  ultimately show ?thesis
    using assms(1-6) by (auto simp: mm_realloc_def Let_def)
qed

section \<open>The class index 20\<close>

lemma GET_CLASS_bounds:
  "0 \<le> GET_CLASS sz \<and> GET_CLASS sz \<le> 20 \<and>
   (GET_CLASS sz < 20 \<longrightarrow> unat sz < 64 * 2 ^ nat (GET_CLASS sz)) \<and>
   (\<forall>c. 0 \<le> c \<and> c < GET_CLASS sz \<longrightarrow> 64 * 2 ^ nat c \<le> unat sz)"
proof -
  have "unat (64::64 word) = 2 ^ (nat 0 + 6)" by simp
  from GET_CLASS_loop_spec[OF _ _ this, of sz]
  show ?thesis
    unfolding GET_CLASS_def by (simp add: power_add mult.commute)
qed

lemma GET_CLASS_big:
  assumes "64 * 2 ^ 19 \<le> unat sz" shows "GET_CLASS sz = 20"
proof (rule ccontr)
  assume "GET_CLASS sz \<noteq> 20"
  with GET_CLASS_bounds[of sz] have lt: "GET_CLASS sz < 20" and ge: "0 \<le> GET_CLASS sz"
    and u: "unat sz < 64 * 2 ^ nat (GET_CLASS sz)" by auto
  have "nat (GET_CLASS sz) \<le> 19" using lt by simp
  then have "(2::nat) ^ nat (GET_CLASS sz) \<le> 2 ^ 19" by (intro power_increasing) simp_all
  with u assms show False by simp
qed


lemma GET_SIZE_even: "even (GET_SIZE s a)"
  by (simp add: GET_SIZE_def even_and_iff)

lemma remove_end_heap [simp]: "end_heap (remove_from_free_list s c p) = end_heap s"
  by (simp add: remove_from_free_list_def Let_def WRITE_ADDR_def)

lemma coalesce_right_even:
  assumes "coalesce_right s it t = Some r"
  shows "even t \<longrightarrow> even (snd (snd r))"
  by (rule coalesce_right.raw_induct[where P = "\<lambda>s it t r. even t \<longrightarrow> even (snd (snd r))", OF _ assms])
     (auto simp: Let_def GET_SIZE_even split: if_splits)

lemma coalesce_left_even:
  assumes "coalesce_left s it t = Some r"
  shows "even t \<longrightarrow> even (snd (snd r))"
  by (rule coalesce_left.raw_induct[where P = "\<lambda>s it t r. even t \<longrightarrow> even (snd (snd r))", OF _ assms])
     (auto simp: Let_def GET_SIZE_even split: if_splits)

lemma BIT_zero_iff: "BIT s a = 0 \<longleftrightarrow> even (mem s a)"
  by (simp add: BIT_def READ_DATA_def and_one_eq word_eq_iff_unsigned[where ?'a = nat] mod2_eq_if unat_mod)

lemma coalesce_marks_free:
  assumes "coalesce s p = Some (q, s')"
  shows "BIT s' (HEADER q) = 0"
proof -
  from assms obtain s1 it t1 s2 t2 where
    r: "coalesce_right s p (GET_SIZE s (HEADER p)) = Some (s1, it, t1)" and
    l: "coalesce_left s1 p t1 = Some (s2, q, t2)" and
    m: "mem s' (HEADER q) = t2"
    by (auto simp: coalesce_def Let_def WRITE_DATA_def PACK_def split: option.splits prod.splits if_splits)
  have "even t1" using coalesce_right_even[OF r] GET_SIZE_even by simp
  then have "even t2" using coalesce_left_even[OF l] by simp
  then show ?thesis using m by (simp add: BIT_zero_iff)
qed

lemma mark_free_size:
  "GET_SIZE (WRITE_DATA (WRITE_DATA s (HEADER p) (PACK (GET_SIZE s (HEADER p)) 0)) a
        (PACK (GET_SIZE (WRITE_DATA s (HEADER p) (PACK (GET_SIZE s (HEADER p)) 0)) (HEADER p)) 0)) (HEADER p)
   = GET_SIZE s (HEADER p)"
  by (simp add: GET_SIZE_def WRITE_DATA_def READ_DATA_def PACK_def and.assoc)

text \<open>The two guarded functions do nothing for an index outside 0..19, and \<open>mm_malloc\<close> for a
  needed size of class 20 searches no list and goes straight to \<open>mem_sbrk\<close>.\<close>

lemma class_outside_table_guards:
  "c < 0 \<or> c \<ge> CLASSES \<Longrightarrow>
     put_on_front_of_class_list s c b = s \<and> search_free_list s c n = Some NULL"
  by (auto simp: put_on_front_of_class_list_def search_free_list_def)

lemma mm_malloc_class_20_grows:
  assumes "sz > 0"
    and nd: "newsize = (if ALIGN (sz + HF_OVERHEAD) < MBS then MBS else ALIGN (sz + HF_OVERHEAD))"
    and c20: "GET_CLASS newsize = 20"
  shows "mm_malloc s sz = Some (malloc_grow s newsize)"
proof -
  have nz: "sz \<noteq> 0" using assms(1) by auto
  have ml: "malloc_loop s (GET_CLASS newsize) newsize = Some (malloc_grow s newsize)"
    unfolding c20 by (simp add: malloc_loop.simps[of s 20] CLASSES_def)
  have "mm_malloc s sz = malloc_loop s (GET_CLASS newsize) newsize"
    unfolding nd using nz by (simp add: mm_malloc_def Let_def)
  with ml show ?thesis by simp
qed

section \<open>The free-list index\<close>

lemma dll_frame:
  "dll s pv x bs \<Longrightarrow>
   (\<forall>z\<in>set bs. READ_ADDR s' (PREV z) = READ_ADDR s (PREV z) \<and>
                 READ_ADDR s' (NEXT z) = READ_ADDR s (NEXT z)) \<Longrightarrow>
   dll s' pv x bs"
  by (induction bs arbitrary: pv x) auto

lemma dll_free_path: "dll s pv x bs \<Longrightarrow> free_path s x bs"
  by (induction bs arbitrary: pv x) auto

lemma dll_nonnull: "dll s pv x bs \<Longrightarrow> NULL \<notin> set bs"
  by (induction bs arbitrary: pv x) auto

lemma dll_hd: "dll s pv x bs \<Longrightarrow> x = (if bs = [] then NULL else hd bs)"
  by (cases bs) auto

lemma dll_neighbours:
  "dll s pv0 x bs \<Longrightarrow> distinct bs \<Longrightarrow> b \<in> set bs \<Longrightarrow> pv0 \<noteq> b \<Longrightarrow>
   (READ_ADDR s (PREV b) = pv0 \<and> hd bs = b \<or> hd bs \<noteq> b \<and> READ_ADDR s (PREV b) \<in> set bs) \<and>
   READ_ADDR s (PREV b) \<noteq> b \<and>
   (READ_ADDR s (NEXT b) = NULL \<or> READ_ADDR s (NEXT b) \<in> set bs) \<and>
   READ_ADDR s (NEXT b) \<noteq> b"
proof (induction bs arbitrary: pv0 x)
  case Nil
  then show ?case by simp
next
  case (Cons a rest)
  show ?case
  proof (cases "a = b")
    case True
    with Cons.prems show ?thesis by (cases rest) auto
  next
    case False
    with Cons.prems have "dll s a (READ_ADDR s (NEXT a)) rest" "distinct rest" "b \<in> set rest" "a \<noteq> b"
      by auto
    from Cons.IH[OF this] False show ?thesis by auto
  qed
qed

lemma dll_remove:
  assumes R1: "\<forall>z\<in>N. z \<noteq> nx \<longrightarrow> READ_ADDR s' (PREV z) = READ_ADDR s (PREV z)"
    and R2: "nx \<noteq> NULL \<longrightarrow> READ_ADDR s' (PREV nx) = pv"
    and R3: "\<forall>z\<in>N. z \<noteq> pv \<longrightarrow> READ_ADDR s' (NEXT z) = READ_ADDR s (NEXT z)"
    and R4: "pv \<noteq> NULL \<longrightarrow> READ_ADDR s' (NEXT pv) = nx"
    and pv: "pv = READ_ADDR s (PREV b)" and nx: "nx = READ_ADDR s (NEXT b)"
  shows "dll s pv0 x bs \<Longrightarrow> distinct bs \<Longrightarrow> set bs \<subseteq> N \<Longrightarrow> b \<in> set bs \<Longrightarrow> pv0 \<notin> set bs \<Longrightarrow>
         dll s' pv0 (if hd bs = b then nx else x) (remove1 b bs)"
proof (induction bs arbitrary: pv0 x)
  case Nil
  then show ?case by simp
next
  case (Cons a rest)
  from Cons.prems have a: "x = a" "a \<noteq> NULL" "READ_ADDR s (PREV a) = pv0"
    and d: "dll s a (READ_ADDR s (NEXT a)) rest" and dist: "distinct rest" "a \<notin> set rest"
    and sub: "set rest \<subseteq> N" "a \<in> N" and p0: "pv0 \<notin> set rest" "pv0 \<noteq> a"
    by auto
  show ?case
  proof (cases "a = b")
    case True
    then have pv0: "pv = pv0" and nxa: "nx = READ_ADDR s (NEXT a)" using a pv nx by simp_all
    have "dll s' pv0 nx rest"
    proof (cases rest)
      case Nil
      with d nxa show ?thesis by simp
    next
      case (Cons y r')
      with d nxa have y: "nx = y" "y \<noteq> NULL" "READ_ADDR s (PREV y) = a"
        and d': "dll s y (READ_ADDR s (NEXT y)) r'" by auto
      have "READ_ADDR s' (PREV y) = pv0" using R2 y pv0 by simp
      moreover have ny: "READ_ADDR s' (NEXT y) = READ_ADDR s (NEXT y)"
        using R3 sub Cons p0 pv0 by auto
      moreover have "dll s' y (READ_ADDR s (NEXT y)) r'"
      proof (rule dll_frame[OF d'], intro ballI conjI)
        fix z assume z: "z \<in> set r'"
        then have "z \<in> N" "z \<noteq> nx" "z \<noteq> pv" using sub Cons dist y p0 pv0 by auto
        then show "READ_ADDR s' (PREV z) = READ_ADDR s (PREV z)"
          "READ_ADDR s' (NEXT z) = READ_ADDR s (NEXT z)" using R1 R3 by auto
      qed
      ultimately show ?thesis using Cons y by simp
    qed
    with True show ?thesis by simp
  next
    case False
    then have b: "b \<in> set rest" using Cons.prems by auto
    from dll_neighbours[OF d dist(1) b] False
    have nb: "READ_ADDR s (PREV b) = a \<and> hd rest = b \<or> hd rest \<noteq> b \<and> READ_ADDR s (PREV b) \<in> set rest"
      "READ_ADDR s (NEXT b) = NULL \<or> READ_ADDR s (NEXT b) \<in> set rest"
      by auto
    have "a \<noteq> nx" using nb(2) nx a dist by auto
    then have pa: "READ_ADDR s' (PREV a) = pv0" using R1 sub a by auto
    have na: "READ_ADDR s' (NEXT a) = (if hd rest = b then nx else READ_ADDR s (NEXT a))"
    proof (cases "hd rest = b")
      case True
      with nb(1) have "pv = a" using pv by auto
      with R4 a True show ?thesis by simp
    next
      case False
      with nb(1) have "pv \<in> set rest" using pv by auto
      then have "a \<noteq> pv" using dist by auto
      with R3 sub False show ?thesis by auto
    qed
    from Cons.IH[OF d dist(1) sub(1) b dist(2)]
    have "dll s' a (if hd rest = b then nx else READ_ADDR s (NEXT a)) (remove1 b rest)" .
    with False a pa na show ?thesis by simp
  qed
qed

lemma classes_iff: "c \<in> classes \<longleftrightarrow> 0 \<le> c \<and> c < 20"
  by (auto simp: classes_def CLASSES_def)

lemma unat_8_times:
  assumes "0 \<le> c" "c < 20"
  shows "unat (8 * word_of_int c :: 64 word) = 8 * nat c"
proof -
  have "(word_of_int c :: 64 word) = word_of_nat (nat c)" using assms(1) by simp
  then have "(8 * word_of_int c :: 64 word) = word_of_nat (8 * nat c)" by simp
  then have "unat (8 * word_of_int c :: 64 word) = (8 * nat c) mod 2 ^ 64"
    by (simp only: unat_of_nat) simp
  moreover have "8 * nat c < (2::nat) ^ 64" using assms(2) by simp
  ultimately show ?thesis by simp
qed

lemma LOOKUP_TABLE_inj:
  assumes "c \<in> classes" "c' \<in> classes" "LOOKUP_TABLE s c = LOOKUP_TABLE s c'"
  shows "c = c'"
proof -
  from assms(3) have "(8 * word_of_int c :: 64 word) = 8 * word_of_int c'"
    by (simp add: LOOKUP_TABLE_def ADDRESS_SIZE_def)
  then have "unat (8 * word_of_int c :: 64 word) = unat (8 * word_of_int c' :: 64 word)" by simp
  then show ?thesis using assms(1,2) by (auto simp: unat_8_times classes_iff)
qed

lemma NEXT_neq_PREV [simp]: "NEXT b \<noteq> PREV b" "PREV b \<noteq> NEXT b"
  by (simp_all add: NEXT_def PREV_def ADDRESS_SIZE_def)

lemma NEXT_inj [simp]: "NEXT a = NEXT b \<longleftrightarrow> a = b"
  by (simp add: NEXT_def)

lemma remove_mem:
  assumes "READ_ADDR s (LOOKUP_TABLE s c) \<noteq> NULL" "b \<noteq> NULL"
    and "READ_ADDR s (PREV b) \<noteq> NULL \<longrightarrow>
           NEXT (READ_ADDR s (PREV b)) \<noteq> PREV b \<and> READ_ADDR s (PREV b) \<noteq> b"
    and "READ_ADDR s (PREV b) = NULL \<longrightarrow>
           LOOKUP_TABLE s c \<noteq> PREV b \<and> LOOKUP_TABLE s c \<noteq> NEXT b"
  shows "remove_from_free_list s c b =
     s\<lparr>mem :=
        (let pv = READ_ADDR s (PREV b); nx = READ_ADDR s (NEXT b);
             m1 = (if pv \<noteq> NULL then (mem s)(NEXT pv := nx) else (mem s)(LOOKUP_TABLE s c := nx))
         in if nx \<noteq> NULL then m1(PREV nx := pv) else m1)\<rparr>"
  using assms
  by (auto simp: remove_from_free_list_def Let_def READ_ADDR_def WRITE_ADDR_def LOOKUP_TABLE_def)

lemma remove_fields [simp]:
  "lookup_table (remove_from_free_list s c b) = lookup_table s"
  "first_block (remove_from_free_list s c b) = first_block s"
  "mem_brk (remove_from_free_list s c b) = mem_brk s"
  "mem_max_addr (remove_from_free_list s c b) = mem_max_addr s"
  "LOOKUP_TABLE (remove_from_free_list s c b) k = LOOKUP_TABLE s k"
  by (simp_all add: remove_from_free_list_def Let_def WRITE_ADDR_def LOOKUP_TABLE_def)

lemma nodesI: "c \<in> classes \<Longrightarrow> b \<in> set (L c) \<Longrightarrow> b \<in> nodes L"
  by (auto simp: nodes_def)

lemma lists_ok_node_facts:
  assumes ok: "lists_ok s L" and c: "c \<in> classes" and b: "b \<in> set (L c)"
  shows "b \<noteq> NULL" "READ_ADDR s (LOOKUP_TABLE s c) \<noteq> NULL"
    "READ_ADDR s (PREV b) \<noteq> b" "READ_ADDR s (NEXT b) \<noteq> b"
    "READ_ADDR s (PREV b) = NULL \<and> hd (L c) = b \<or>
       hd (L c) \<noteq> b \<and> READ_ADDR s (PREV b) \<in> set (L c)"
    "READ_ADDR s (NEXT b) = NULL \<or> READ_ADDR s (NEXT b) \<in> set (L c)"
    "NULL \<notin> set (L c)"
proof -
  from ok c have d: "dll s NULL (READ_ADDR s (LOOKUP_TABLE s c)) (L c)" and dist: "distinct (L c)"
    by (auto simp: lists_ok_def)
  show "NULL \<notin> set (L c)" using dll_nonnull[OF d] .
  show bn: "b \<noteq> NULL" using dll_nonnull[OF d] b by auto
  from b have "L c \<noteq> []" by auto
  with dll_hd[OF d] have "READ_ADDR s (LOOKUP_TABLE s c) = hd (L c)" by simp
  moreover have "hd (L c) \<in> set (L c)" using \<open>L c \<noteq> []\<close> by simp
  ultimately show "READ_ADDR s (LOOKUP_TABLE s c) \<noteq> NULL" using dll_nonnull[OF d] by auto
  from dll_neighbours[OF d dist b] bn
  show "READ_ADDR s (PREV b) \<noteq> b" "READ_ADDR s (NEXT b) \<noteq> b"
    "READ_ADDR s (PREV b) = NULL \<and> hd (L c) = b \<or>
       hd (L c) \<noteq> b \<and> READ_ADDR s (PREV b) \<in> set (L c)"
    "READ_ADDR s (NEXT b) = NULL \<or> READ_ADDR s (NEXT b) \<in> set (L c)"
    by auto
qed

lemma remove_reads:
  assumes ok: "lists_ok s L" and c: "c \<in> classes" and b: "b \<in> set (L c)"
  defines "s' \<equiv> remove_from_free_list s c b"
  defines "pv \<equiv> READ_ADDR s (PREV b)" and "nx \<equiv> READ_ADDR s (NEXT b)"
  shows "\<forall>z\<in>nodes L. z \<noteq> nx \<longrightarrow> READ_ADDR s' (PREV z) = READ_ADDR s (PREV z)"
    and "nx \<noteq> NULL \<longrightarrow> READ_ADDR s' (PREV nx) = pv"
    and "\<forall>z\<in>nodes L. z \<noteq> pv \<longrightarrow> READ_ADDR s' (NEXT z) = READ_ADDR s (NEXT z)"
    and "pv \<noteq> NULL \<longrightarrow> READ_ADDR s' (NEXT pv) = nx"
    and "READ_ADDR s' (LOOKUP_TABLE s c) = (if hd (L c) = b then nx else READ_ADDR s (LOOKUP_TABLE s c))"
    and "\<forall>k\<in>classes. k \<noteq> c \<longrightarrow> READ_ADDR s' (LOOKUP_TABLE s k) = READ_ADDR s (LOOKUP_TABLE s k)"
    and "\<forall>a. a \<notin> index_cells s L \<longrightarrow> mem s' a = mem s a"
proof -
  note f = lists_ok_node_facts[OF ok c b]
  have bN: "b \<in> nodes L" using nodesI[where L=L, OF c b] .
  have pvN: "pv \<noteq> NULL \<Longrightarrow> pv \<in> nodes L" and pv0: "pv = NULL \<Longrightarrow> hd (L c) = b"
    and pvh: "pv \<noteq> NULL \<Longrightarrow> hd (L c) \<noteq> b"
    using f(5,7) nodesI[where L=L, OF c] by (auto simp: pv_def)
  have nxN: "nx \<noteq> NULL \<Longrightarrow> nx \<in> nodes L" using f(6) nodesI[where L=L, OF c] by (auto simp: nx_def)
  from ok have sep1: "\<And>a b. a \<in> nodes L \<Longrightarrow> b \<in> nodes L \<Longrightarrow> PREV a \<noteq> NEXT b"
    and sep2: "\<And>k b. k \<in> classes \<Longrightarrow> b \<in> nodes L \<Longrightarrow>
        LOOKUP_TABLE s k \<noteq> PREV b \<and> LOOKUP_TABLE s k \<noteq> NEXT b"
    by (auto simp: lists_ok_def)
  have sep1': "\<And>a b. a \<in> nodes L \<Longrightarrow> b \<in> nodes L \<Longrightarrow> NEXT b \<noteq> PREV a"
    using sep1 by fastforce
  have sep2': "\<And>k b. k \<in> classes \<Longrightarrow> b \<in> nodes L \<Longrightarrow>
        PREV b \<noteq> LOOKUP_TABLE s k \<and> NEXT b \<noteq> LOOKUP_TABLE s k"
    using sep2 by fastforce
  have m: "mem s' =
        (let m1 = (if pv \<noteq> NULL then (mem s)(NEXT pv := nx) else (mem s)(LOOKUP_TABLE s c := nx))
         in if nx \<noteq> NULL then m1(PREV nx := pv) else m1)"
    unfolding s'_def pv_def nx_def
    apply (subst remove_mem)
    using f(1,2,3) sep1'[OF bN] sep2[OF c bN] pvN
    by (auto simp: Let_def pv_def)
  show "\<forall>z\<in>nodes L. z \<noteq> nx \<longrightarrow> READ_ADDR s' (PREV z) = READ_ADDR s (PREV z)"
    using sep1 sep1' sep2[OF c] sep2'[OF c] pvN by (auto simp: m READ_ADDR_def Let_def PREV_def)
  show "nx \<noteq> NULL \<longrightarrow> READ_ADDR s' (PREV nx) = pv"
    by (auto simp: m READ_ADDR_def Let_def)
  show "\<forall>z\<in>nodes L. z \<noteq> pv \<longrightarrow> READ_ADDR s' (NEXT z) = READ_ADDR s (NEXT z)"
    using sep1 sep1' sep2[OF c] sep2'[OF c] nxN by (auto simp: m READ_ADDR_def Let_def)
  show "pv \<noteq> NULL \<longrightarrow> READ_ADDR s' (NEXT pv) = nx"
    using sep1 sep1' nxN pvN by (auto simp: m READ_ADDR_def Let_def)
  show "READ_ADDR s' (LOOKUP_TABLE s c) = (if hd (L c) = b then nx else READ_ADDR s (LOOKUP_TABLE s c))"
    using sep2[OF c] sep2'[OF c] nxN pvN pv0 pvh by (auto simp: m READ_ADDR_def Let_def)
  show "\<forall>k\<in>classes. k \<noteq> c \<longrightarrow> READ_ADDR s' (LOOKUP_TABLE s k) = READ_ADDR s (LOOKUP_TABLE s k)"
    using sep2 sep2' nxN pvN LOOKUP_TABLE_inj[OF _ c] by (auto simp: m READ_ADDR_def Let_def)
  show "\<forall>a. a \<notin> index_cells s L \<longrightarrow> mem s' a = mem s a"
    using nxN pvN c by (auto simp: m Let_def index_cells_def)
qed

lemma in_remove1D: "x \<in> set (remove1 b xs) \<Longrightarrow> x \<in> set xs"
  using set_remove1_subset[of b xs] by auto

lemma nodes_remove: "c \<in> classes \<Longrightarrow> nodes (L(c := remove1 b (L c))) \<subseteq> nodes L"
proof
  fix x assume c: "c \<in> classes" and "x \<in> nodes (L(c := remove1 b (L c)))"
  then obtain k where k: "k \<in> classes" "x \<in> set ((L(c := remove1 b (L c))) k)"
    by (auto simp: nodes_def)
  show "x \<in> nodes L"
  proof (cases "k = c")
    case True
    with k have "x \<in> set (L c)" using set_remove1_subset[of b "L c"] by auto
    with c show ?thesis by (auto simp: nodes_def)
  next
    case False
    with k show ?thesis by (auto simp: nodes_def)
  qed
qed

lemma lists_ok_remove:
  assumes ok: "lists_ok s L" and c: "c \<in> classes" and b: "b \<in> set (L c)"
  shows "lists_ok (remove_from_free_list s c b) (L(c := remove1 b (L c)))"
proof -
  let ?s' = "remove_from_free_list s c b"
  let ?L' = "L(c := remove1 b (L c))"
  note r = remove_reads[OF ok c b]
  note f = lists_ok_node_facts[OF ok c b]
  have sub: "nodes ?L' \<subseteq> nodes L"
    using nodes_remove[OF c] .
  from ok have dl: "\<And>k. k \<in> classes \<Longrightarrow> dll s NULL (READ_ADDR s (LOOKUP_TABLE s k)) (L k)"
    and dist: "\<And>k. k \<in> classes \<Longrightarrow> distinct (L k)"
    and disj: "\<And>k k'. k \<in> classes \<Longrightarrow> k' \<in> classes \<Longrightarrow> k \<noteq> k' \<Longrightarrow> set (L k) \<inter> set (L k') = {}"
    and sep1: "\<And>a b. a \<in> nodes L \<Longrightarrow> b \<in> nodes L \<Longrightarrow> PREV a \<noteq> NEXT b"
    and sep2: "\<And>k b. k \<in> classes \<Longrightarrow> b \<in> nodes L \<Longrightarrow>
        LOOKUP_TABLE s k \<noteq> PREV b \<and> LOOKUP_TABLE s k \<noteq> NEXT b"
    by (auto simp: lists_ok_def)
  have d1: "dll ?s' NULL (READ_ADDR ?s' (LOOKUP_TABLE ?s' k)) (?L' k) \<and> distinct (?L' k)"
    if k: "k \<in> classes" for k
  proof (cases "k = c")
    case True
    have "set (L c) \<subseteq> nodes L" using c by (auto simp: nodes_def)
    from dll_remove[OF r(1) r(2) r(3) r(4) refl refl dl[OF c] dist[OF c] this b] f(7)
    have "dll ?s' NULL (if hd (L c) = b then READ_ADDR s (NEXT b) else READ_ADDR s (LOOKUP_TABLE s c))
            (remove1 b (L c))" by simp
    then show ?thesis using True r(5) dist[OF c] by simp
  next
    case False
    have hd: "READ_ADDR ?s' (LOOKUP_TABLE ?s' k) = READ_ADDR s (LOOKUP_TABLE s k)"
      using r(6) k False by simp
    have "dll ?s' NULL (READ_ADDR s (LOOKUP_TABLE s k)) (L k)"
    proof (rule dll_frame[OF dl[OF k]], intro ballI conjI)
      fix z assume z: "z \<in> set (L k)"
      then have zN: "z \<in> nodes L" using k by (auto simp: nodes_def)
      have "z \<notin> set (L c)" using disj[OF k c False] z by auto
      then have "z \<noteq> READ_ADDR s (NEXT b)" "z \<noteq> READ_ADDR s (PREV b)"
        using f(5,6) lists_ok_node_facts(1)[OF ok k z] by auto
      then show "READ_ADDR ?s' (PREV z) = READ_ADDR s (PREV z)"
        "READ_ADDR ?s' (NEXT z) = READ_ADDR s (NEXT z)"
        using r(1) r(3) zN by auto
    qed
    then show ?thesis using hd False dist[OF k] by simp
  qed
  have d2: "set (?L' k) \<inter> set (?L' k') = {}" if "k \<in> classes" "k' \<in> classes" "k \<noteq> k'" for k k'
    using disj[OF that] by (auto dest: in_remove1D)
  show ?thesis
    unfolding lists_ok_def
  proof (intro conjI ballI impI)
    fix k assume "k \<in> classes"
    then show "dll ?s' NULL (READ_ADDR ?s' (LOOKUP_TABLE ?s' k)) (?L' k)" "distinct (?L' k)"
      using d1 by auto
  next
    fix k k' assume "k \<in> classes" "k' \<in> classes" "k \<noteq> k'"
    then show "set (?L' k) \<inter> set (?L' k') = {}" by (rule d2)
  next
    fix a b' assume "a \<in> nodes ?L'" "b' \<in> nodes ?L'"
    then show "PREV a \<noteq> NEXT b'" using sep1 sub by blast
  next
    fix k b' assume "k \<in> classes" "b' \<in> nodes ?L'"
    then show "LOOKUP_TABLE ?s' k \<noteq> PREV b'" "LOOKUP_TABLE ?s' k \<noteq> NEXT b'"
      using sep2 sub by auto
  qed
qed

lemma index_cells_remove:
  "c \<in> classes \<Longrightarrow>
   index_cells (remove_from_free_list s c b) (L(c := remove1 b (L c))) \<subseteq> index_cells s L"
  using nodes_remove[of c L b] by (auto simp: index_cells_def)

lemma put_fields [simp]:
  "lookup_table (put_on_front_of_class_list s c q) = lookup_table s"
  "first_block (put_on_front_of_class_list s c q) = first_block s"
  "end_heap (put_on_front_of_class_list s c q) = end_heap s"
  "mem_brk (put_on_front_of_class_list s c q) = mem_brk s"
  "mem_max_addr (put_on_front_of_class_list s c q) = mem_max_addr s"
  "LOOKUP_TABLE (put_on_front_of_class_list s c q) k = LOOKUP_TABLE s k"
  by (simp_all add: put_on_front_of_class_list_def Let_def WRITE_ADDR_def LOOKUP_TABLE_def)

lemma put_mem:
  assumes c: "c \<in> classes"
    and "READ_ADDR s (LOOKUP_TABLE s c) \<noteq> NULL \<longrightarrow> LOOKUP_TABLE s c \<noteq> PREV (READ_ADDR s (LOOKUP_TABLE s c))"
  shows "put_on_front_of_class_list s c q =
     s\<lparr>mem :=
        (let h = READ_ADDR s (LOOKUP_TABLE s c);
             m1 = (if h = NULL then (mem s)(PREV q := NULL, NEXT q := NULL)
                   else (mem s)(PREV h := q, NEXT q := h, PREV q := NULL))
         in m1(LOOKUP_TABLE s c := q))\<rparr>"
  using assms
  by (auto simp: put_on_front_of_class_list_def Let_def READ_ADDR_def WRITE_ADDR_def
      LOOKUP_TABLE_def classes_iff CLASSES_def)

lemma lists_ok_put:
  assumes ok: "lists_ok s L" and c: "c \<in> classes" and fr: "fresh_block s L q"
  shows "lists_ok (put_on_front_of_class_list s c q) (L(c := q # L c))"
    and "\<forall>a. a \<notin> index_cells s L \<union> {PREV q, NEXT q} \<longrightarrow>
           mem (put_on_front_of_class_list s c q) a = mem s a"
proof -
  let ?s' = "put_on_front_of_class_list s c q"
  let ?L' = "L(c := q # L c)"
  let ?T = "LOOKUP_TABLE s c"
  let ?h = "READ_ADDR s ?T"
  from ok have dl: "\<And>k. k \<in> classes \<Longrightarrow> dll s NULL (READ_ADDR s (LOOKUP_TABLE s k)) (L k)"
    and dist: "\<And>k. k \<in> classes \<Longrightarrow> distinct (L k)"
    and disj: "\<And>k k'. k \<in> classes \<Longrightarrow> k' \<in> classes \<Longrightarrow> k \<noteq> k' \<Longrightarrow> set (L k) \<inter> set (L k') = {}"
    and sep1: "\<And>a b. a \<in> nodes L \<Longrightarrow> b \<in> nodes L \<Longrightarrow> PREV a \<noteq> NEXT b"
    and sep2: "\<And>k b. k \<in> classes \<Longrightarrow> b \<in> nodes L \<Longrightarrow>
        LOOKUP_TABLE s k \<noteq> PREV b \<and> LOOKUP_TABLE s k \<noteq> NEXT b"
    by (auto simp: lists_ok_def)
  from fr have q0: "q \<noteq> NULL" and qN: "q \<notin> nodes L"
    and qs: "\<And>b. b \<in> nodes L \<Longrightarrow> PREV q \<noteq> NEXT b \<and> PREV b \<noteq> NEXT q"
    and qt: "\<And>k. k \<in> classes \<Longrightarrow> LOOKUP_TABLE s k \<noteq> PREV q \<and> LOOKUP_TABLE s k \<noteq> NEXT q"
    by (auto simp: fresh_block_def)
  have hN: "?h \<in> nodes L" if "?h \<noteq> NULL"
  proof -
    from dll_hd[OF dl[OF c]] that have "L c \<noteq> []" "?h = hd (L c)" by (auto split: if_splits)
    then have "?h \<in> set (L c)" by simp
    then show ?thesis by (rule nodesI[where L=L, OF c])
  qed
  have m: "mem ?s' =
        (let m1 = (if ?h = NULL then (mem s)(PREV q := NULL, NEXT q := NULL)
                   else (mem s)(PREV ?h := q, NEXT q := ?h, PREV q := NULL))
         in m1(?T := q))"
    apply (subst put_mem[OF c])
    using sep2[OF c] hN by (auto simp: Let_def)
  show fr2: "\<forall>a. a \<notin> index_cells s L \<union> {PREV q, NEXT q} \<longrightarrow> mem ?s' a = mem s a"
    using hN c by (auto simp: m Let_def index_cells_def)
  have nodeframe: "READ_ADDR ?s' (NEXT z) = READ_ADDR s (NEXT z) \<and>
       (z \<noteq> ?h \<longrightarrow> READ_ADDR ?s' (PREV z) = READ_ADDR s (PREV z))" if z: "z \<in> nodes L" for z
  proof -
    have "NEXT z \<noteq> ?T" "PREV z \<noteq> ?T" using sep2[OF c z] by auto
    moreover have "NEXT z \<noteq> PREV q" "NEXT z \<noteq> NEXT q" "PREV z \<noteq> NEXT q" "PREV z \<noteq> PREV q"
      using qs[OF z] qN z by (auto simp: PREV_def)
    moreover have "?h \<noteq> NULL \<Longrightarrow> NEXT z \<noteq> PREV ?h" using sep1[OF hN z] by auto
    ultimately show ?thesis by (auto simp: m Let_def READ_ADDR_def PREV_def)
  qed
  have tframe: "READ_ADDR ?s' (LOOKUP_TABLE s k) = READ_ADDR s (LOOKUP_TABLE s k)"
    if k: "k \<in> classes" "k \<noteq> c" for k
  proof -
    have "LOOKUP_TABLE s k \<noteq> ?T" using LOOKUP_TABLE_inj[OF k(1) c] k(2) by auto
    moreover have "LOOKUP_TABLE s k \<noteq> PREV q" "LOOKUP_TABLE s k \<noteq> NEXT q" using qt[OF k(1)] by auto
    moreover have "?h \<noteq> NULL \<Longrightarrow> LOOKUP_TABLE s k \<noteq> PREV ?h" using sep2[OF k(1) hN] by auto
    ultimately show ?thesis by (auto simp: m Let_def READ_ADDR_def)
  qed
  have d1: "dll ?s' NULL (READ_ADDR ?s' (LOOKUP_TABLE ?s' k)) (?L' k) \<and> distinct (?L' k)"
    if k: "k \<in> classes" for k
  proof (cases "k = c")
    case False
    have "dll ?s' NULL (READ_ADDR s (LOOKUP_TABLE s k)) (L k)"
    proof (rule dll_frame[OF dl[OF k]], intro ballI conjI)
      fix z assume z: "z \<in> set (L k)"
      then have zN: "z \<in> nodes L" using k by (auto simp: nodes_def)
      have "z \<noteq> ?h"
      proof
        assume "z = ?h"
        then have "?h \<noteq> NULL" using lists_ok_node_facts(1)[OF ok k z] by simp
        then have "?h \<in> set (L c)" using dll_hd[OF dl[OF c]] hd_in_set[of "L c"] by (auto split: if_splits)
        with disj[OF k c False] z \<open>z = ?h\<close> show False by auto
      qed
      then show "READ_ADDR ?s' (PREV z) = READ_ADDR s (PREV z)"
        "READ_ADDR ?s' (NEXT z) = READ_ADDR s (NEXT z)"
        using nodeframe[OF zN] by auto
    qed
    then show ?thesis using tframe[OF k False] False dist[OF k] by simp
  next
    case True
    have hd: "READ_ADDR ?s' ?T = q" by (simp add: m Let_def READ_ADDR_def)
    have pq: "READ_ADDR ?s' (PREV q) = NULL" using qt[OF c] by (auto simp: m Let_def READ_ADDR_def)
    have nq: "READ_ADDR ?s' (NEXT q) = ?h" using qt[OF c] qs[OF hN]
      by (auto simp: m Let_def READ_ADDR_def NULL_def)
    have rest: "dll ?s' q ?h (L c)"
    proof (cases "L c")
      case Nil
      with dl[OF c] show ?thesis by simp
    next
      case (Cons y r')
      with dl[OF c] have y: "?h = y" "y \<noteq> NULL" and d': "dll s y (READ_ADDR s (NEXT y)) r'" by auto
      have yN: "y \<in> nodes L" using hN y by simp
      have py: "READ_ADDR ?s' (PREV y) = q"
        using y sep2[OF c yN] qs[OF yN] qN yN by (auto simp: m Let_def READ_ADDR_def PREV_def)
      have ny: "READ_ADDR ?s' (NEXT y) = READ_ADDR s (NEXT y)" using nodeframe[OF yN] by simp
      have "dll ?s' y (READ_ADDR s (NEXT y)) r'"
      proof (rule dll_frame[OF d'], intro ballI conjI)
        fix z assume z: "z \<in> set r'"
        then have "z \<in> set (L c)" using Cons by simp
        then have zN: "z \<in> nodes L" by (rule nodesI[where L=L, OF c])
        have "z \<noteq> ?h" using dist[OF c] Cons z y by auto
        then show "READ_ADDR ?s' (PREV z) = READ_ADDR s (PREV z)"
          "READ_ADDR ?s' (NEXT z) = READ_ADDR s (NEXT z)"
          using nodeframe[OF zN] by auto
      qed
      then show ?thesis using Cons y py ny by simp
    qed
    have "q \<notin> set (L c)" using qN c by (auto simp: nodes_def)
    then show ?thesis using True hd pq nq rest q0 dist[OF c] by simp
  qed
  have nsub: "nodes ?L' \<subseteq> insert q (nodes L)" by (auto simp: nodes_def split: if_splits)
  show "lists_ok ?s' ?L'"
    unfolding lists_ok_def
  proof (intro conjI ballI impI)
    fix k assume "k \<in> classes"
    then show "dll ?s' NULL (READ_ADDR ?s' (LOOKUP_TABLE ?s' k)) (?L' k)" "distinct (?L' k)"
      using d1 by auto
  next
    fix k k' assume k: "k \<in> classes" "k' \<in> classes" "k \<noteq> k'"
    then show "set (?L' k) \<inter> set (?L' k') = {}"
      using disj[OF k] qN by (auto simp: nodes_def)
  next
    fix a b' assume "a \<in> nodes ?L'" "b' \<in> nodes ?L'"
    then have "a = q \<or> a \<in> nodes L" "b' = q \<or> b' \<in> nodes L" using nsub by auto
    then show "PREV a \<noteq> NEXT b'" using sep1 qs by auto
  next
    fix k b' assume k: "k \<in> classes" and "b' \<in> nodes ?L'"
    then have "b' = q \<or> b' \<in> nodes L" using nsub by auto
    then show "LOOKUP_TABLE ?s' k \<noteq> PREV b'" "LOOKUP_TABLE ?s' k \<noteq> NEXT b'"
      using sep2[OF k] qt[OF k] by auto
  qed
qed

section \<open>Free\<close>


lemma GET_SIZE_idem: "w AND NOT 7 AND NOT 7 = w AND NOT (7::64 word)"
  by (simp add: and.assoc)



section \<open>Sizes are multiples of eight\<close>

lemma seven_mask: "(7::64 word) = mask 3"
  by (simp add: mask_eq_exp_minus_1)

lemma and_not7_dvd: "8 dvd (w AND NOT 7 :: 64 word)"
proof -
  have "take_bit 3 (w AND NOT (mask 3) :: 64 word) = 0"
    by (simp add: take_bit_not_mask_eq_0)
  then have "2 ^ 3 dvd (w AND NOT (mask 3) :: 64 word)"
    by (simp only: take_bit_eq_0_iff)
  then show ?thesis by (simp add: seven_mask)
qed

lemma dvd_and_not7: "8 dvd w \<Longrightarrow> w AND NOT 7 = (w::64 word)"
proof -
  assume "8 dvd w"
  then have t: "take_bit 3 w = 0" by (simp add: take_bit_eq_0_iff)
  have "w AND NOT (mask 3) = w"
  proof (rule bit_eqI)
    fix n
    have "n < 3 \<Longrightarrow> \<not> bit w n"
    proof
      assume "n < 3" "bit w n"
      then have "bit (take_bit 3 w) n" by (simp add: bit_take_bit_iff)
      with t show False by simp
    qed
    then show "bit (w AND NOT (mask 3)) n \<longleftrightarrow> bit w n"
      by (auto simp: bit_simps dest: bit_imp_le_length)
  qed
  then show ?thesis by (simp add: seven_mask)
qed

lemma dvd8_bit0: "8 dvd (w::64 word) \<Longrightarrow> w AND 1 = 0"
proof -
  assume "8 dvd w"
  then have "2 dvd w" by (rule dvd_trans[rotated]) simp
  then show ?thesis by (simp add: and_one_eq even_iff_mod_2_eq_zero)
qed

lemma dvd8_plus1: 
  assumes "8 dvd (w::64 word)" shows "(w + 1) AND NOT 7 = w" "(w + 1) AND 1 = 1"
proof -
  have ev: "even w" using assms by (rule dvd_trans[rotated]) simp
  then have o: "w + 1 = w OR 1" by (simp add: or_one_eq)
  have "(w OR 1) AND NOT 7 = (w AND NOT 7) OR (1 AND NOT 7)"
    by (simp add: bit.conj_disj_distrib2)
  also have "(1::64 word) AND NOT 7 = 0" by simp
  finally show "(w + 1) AND NOT 7 = w" using o dvd_and_not7[OF assms] by simp
  have "odd (w + 1)" using ev by simp
  then show "(w + 1) AND 1 = 1" by (simp only: and_one_eq odd_iff_mod_2_eq_one)
qed

section \<open>Coalescing\<close>




lemma index_cells_frame: "lookup_table s' = lookup_table s \<Longrightarrow> index_cells s' L = index_cells s L"
  by (simp add: index_cells_def LOOKUP_TABLE_def)


lemma lists_ok_frame:
  assumes ok: "lists_ok s L" and lt: "lookup_table s' = lookup_table s"
    and fr: "\<forall>a\<in>index_cells s L. mem s' a = mem s a"
  shows "lists_ok s' L"
proof -
  have T: "\<And>c. LOOKUP_TABLE s' c = LOOKUP_TABLE s c" using lt by (simp add: LOOKUP_TABLE_def)
  have hd: "READ_ADDR s' (LOOKUP_TABLE s c) = READ_ADDR s (LOOKUP_TABLE s c)" if "c \<in> classes" for c
    using fr that by (auto simp: READ_ADDR_def index_cells_def)
  have nd: "READ_ADDR s' (PREV z) = READ_ADDR s (PREV z) \<and> READ_ADDR s' (NEXT z) = READ_ADDR s (NEXT z)"
    if "z \<in> nodes L" for z
    using fr that by (auto simp: READ_ADDR_def index_cells_def)
  have "dll s' NULL (READ_ADDR s (LOOKUP_TABLE s c)) (L c)" if c: "c \<in> classes" for c
  proof -
    have d: "dll s NULL (READ_ADDR s (LOOKUP_TABLE s c)) (L c)" using ok c by (simp add: lists_ok_def)
    have "\<forall>z\<in>set (L c). READ_ADDR s' (PREV z) = READ_ADDR s (PREV z) \<and>
                 READ_ADDR s' (NEXT z) = READ_ADDR s (NEXT z)"
      using nd nodesI[where L=L, OF c] by blast
    with d show ?thesis by (rule dll_frame)
  qed
  then show ?thesis using ok hd by (simp add: lists_ok_def T)
qed








lemma GET_SIZE_dvd: "8 dvd GET_SIZE s a"
  unfolding GET_SIZE_def by (rule and_not7_dvd)





section \<open>Free, from the heap before the call\<close>







section \<open>Allocation from a list\<close>

lemma unat_plus_small:
  fixes n z k :: "64 word"
  assumes "unat n + 32 < unat z" "unat k \<le> 32"
  shows "unat (n + k) = unat n + unat k"
proof -
  have "unat z < 2 ^ 64" using unsigned_less[of z] by simp
  then have "unat n + unat k < 2 ^ LENGTH(64)" using assms by simp
  then show ?thesis by (simp only: unat_add_lem)
qed

lemma split_offsets:
  fixes n z :: "64 word"
  assumes "32 \<le> n" "n \<le> z" "z - n > 32"
  shows "n \<noteq> 8" "z \<noteq> 8" "n \<noteq> 0" "n \<noteq> - 8" "16 + n \<noteq> 0" "z - 16 \<noteq> n" "8 + n \<noteq> z"
    "z \<noteq> 24 + n" "n \<noteq> z"
proof -
  have un: "32 \<le> unat n" using assms(1) by (simp add: word_le_nat_alt)
  have gap: "unat n + 32 < unat z"
    using assms(2,3) by (simp add: word_less_nat_alt unat_sub word_le_nat_alt)
  have p8: "unat (n + 8) = unat n + 8" using unat_plus_small[OF gap, of 8] by simp
  have p16: "unat (n + 16) = unat n + 16" using unat_plus_small[OF gap, of 16] by simp
  have p24: "unat (n + 24) = unat n + 24" using unat_plus_small[OF gap, of 24] by simp
  show "n \<noteq> 8" using un by auto
  show "z \<noteq> 8" using un gap by auto
  show "n \<noteq> 0" using un by auto
  show "n \<noteq> z" using gap by auto
  show "n \<noteq> - 8"
  proof
    assume "n = - 8"
    then have "unat (n + 8) = 0" by simp
    with p8 show False by simp
  qed
  show "16 + n \<noteq> 0"
  proof
    assume "16 + n = 0"
    then have "unat (n + 16) = 0" by (simp add: add.commute)
    with p16 show False by simp
  qed
  show "z - 16 \<noteq> n"
  proof
    assume "z - 16 = n"
    then have "z = n + 16" by (simp add: diff_eq_eq)
    with p16 gap show False by simp
  qed
  show "8 + n \<noteq> z"
  proof
    assume "8 + n = z"
    then have "z = n + 8" by (simp add: add.commute)
    with p8 gap show False by simp
  qed
  show "z \<noteq> 24 + n"
  proof
    assume "z = 24 + n"
    then have "z = n + 24" by (simp add: add.commute)
    with p24 gap show False by simp
  qed
qed

lemma split_unfold:
  assumes z: "GET_SIZE s (HEADER B) = z" and n8: "8 dvd n"
    and n32: "32 \<le> n" and nz: "n \<le> z" and big: "z - n > 32"
  shows "split s B n =
     (let s1 = (if BIT s (HEADER B) = 0 then remove_from_free_list s (GET_CLASS z) B else s);
          s5 = s1\<lparr>mem := (mem s1)(B - 8 := n + 1, B + n - 16 := n + 1, B + n - 8 := z - n,
                                   B + z - 16 := z - n)\<rparr>;
          s6 = put_on_front_of_class_list s5 (GET_CLASS (z - n)) (B + n)
      in if end_heap s6 = B then s6\<lparr>end_heap := B + n\<rparr> else s6)"
proof -
  note o = split_offsets[OF n32 nz big]
  have z8: "8 dvd z" using GET_SIZE_dvd[of s "HEADER B"] z by simp
  have r8: "8 dvd z - n" using z8 n8 by (rule dvd_diff)
  have a1: "(n + 1) AND - 8 = n" using dvd8_plus1(1)[OF n8] by simp
  have a2: "(z - n) AND - 8 = z - n" using dvd_and_not7[OF r8] by simp
  have z': "mem s (B - 8) AND - 8 = z"
    using z by (simp add: GET_SIZE_def READ_DATA_def HEADER_def HEADER_SIZE_def)
  show ?thesis
    by (simp add: split_def Let_def z z' WRITE_DATA_def READ_DATA_def GET_SIZE_def FOOTER_def
        HEADER_def HEADER_SIZE_def FOOTER_SIZE_def HF_OVERHEAD_def PACK_def a1 a2 o BIT_def)
qed

lemma GET_CLASS_small:
  assumes "unat x < 64 * 2 ^ 19" shows "GET_CLASS x < 20"
proof (rule ccontr)
  assume "\<not> GET_CLASS x < 20"
  with GET_CLASS_bounds[of x] have e: "GET_CLASS x = 20"
    and a: "\<forall>c. 0 \<le> c \<and> c < GET_CLASS x \<longrightarrow> 64 * 2 ^ nat c \<le> unat x" by auto
  from a[rule_format, of 19] e have "64 * 2 ^ nat 19 \<le> unat x" by simp
  with assms show False by simp
qed

lemma GET_CLASS_listed_small:
  assumes "GET_CLASS z < 20" shows "unat z < 64 * 2 ^ 19"
proof -
  from GET_CLASS_bounds[of z] assms have ge: "0 \<le> GET_CLASS z"
    and u: "unat z < 64 * 2 ^ nat (GET_CLASS z)" by auto
  have "nat (GET_CLASS z) \<le> 19" using assms by simp
  then have "(2::nat) ^ nat (GET_CLASS z) \<le> 2 ^ 19" by (intro power_increasing) simp_all
  with u show ?thesis by simp
qed

lemma search_member:
  assumes ok: "lists_ok s L" and c: "c \<in> classes"
    and se: "search_free_list s c need = Some r" and r: "r \<noteq> NULL"
  shows "r \<in> set (L c)" "need \<le> GET_SIZE s (HEADER r)"
proof -
  have d: "dll s NULL (READ_ADDR s (LOOKUP_TABLE s c)) (L c)" using ok c by (simp add: lists_ok_def)
  then have fp: "free_path s (READ_ADDR s (LOOKUP_TABLE s c)) (L c)" by (rule dll_free_path)
  have cc: "\<not> (c < 0 \<or> c \<ge> CLASSES)" using c by (simp add: classes_iff CLASSES_def)
  show "r \<in> set (L c)" "need \<le> GET_SIZE s (HEADER r)"
  proof (atomize (full), cases "L c")
    case Nil
    with fp have "READ_ADDR s (LOOKUP_TABLE s c) = NULL" by simp
    with se cc r show "r \<in> set (L c) \<and> need \<le> GET_SIZE s (HEADER r)"
      by (simp add: search_free_list_def)
  next
    case (Cons b bs)
    with fp have hd: "READ_ADDR s (LOOKUP_TABLE s c) = b" "b \<noteq> NULL" by simp_all
    have "search_free_list s c need = search_loop s need b NULL"
      using cc hd by (simp add: search_free_list_def)
    with se have sl: "search_loop s need b NULL = Some r" by simp
    from search_loop_best_fit[of s b b bs NULL need] fp Cons hd
    obtain r' where "search_loop s need b NULL = Some r'"
      "r' \<noteq> NULL \<longrightarrow> (r' = NULL \<or> r' \<in> set (b # bs)) \<and> need \<le> GET_SIZE s (HEADER r')"
      by auto
    with sl r Cons show "r \<in> set (L c) \<and> need \<le> GET_SIZE s (HEADER r)" by auto
  qed
qed

lemma malloc_loop_skip:
  "c \<le> i \<Longrightarrow> i \<le> CLASSES \<Longrightarrow> \<forall>j\<in>set [c..i - 1]. search_free_list s j n = Some NULL \<Longrightarrow>
   malloc_loop s c n = malloc_loop s i n"
proof (induction "nat (i - c)" arbitrary: c)
  case 0
  then show ?case by simp
next
  case (Suc k)
  then have lt: "c < i" and k: "k = nat (i - (c + 1))" by auto
  have "c \<in> set [c..i - 1]" using lt by simp
  then have se: "search_free_list s c n = Some NULL" using Suc.prems(3) by blast
  have "malloc_loop s c n = malloc_loop s (c + 1) n"
    using lt Suc.prems(2) se by (simp add: malloc_loop.simps[of s c])
  moreover have "malloc_loop s (c + 1) n = malloc_loop s i n"
    using Suc.prems lt by (intro Suc.hyps(1)[OF k]) auto
  ultimately show ?case by simp
qed

lemma whole_run:
  assumes ok: "lists_ok s L" and c: "i \<in> classes" and b: "B \<in> set (L i)"
    and cells: "HEADER B \<notin> index_cells s L" "FOOTER s B \<notin> index_cells s L"
  defines "s1 \<equiv> WRITE_DATA s (HEADER B) (PACK (GET_SIZE s (HEADER B)) 1)"
  defines "s2 \<equiv> WRITE_DATA s1 (FOOTER s1 B) (PACK (GET_SIZE s1 (HEADER B)) 1)"
  defines "s' \<equiv> remove_from_free_list s2 i B"
  shows "READ_DATA s' (HEADER B) = PACK (GET_SIZE s (HEADER B)) 1"
    "READ_DATA s' (FOOTER s' B) = PACK (GET_SIZE s (HEADER B)) 1"
    "lists_ok s' (L(i := remove1 B (L i)))"
    "end_heap s' = end_heap s"
proof -
  let ?z = "GET_SIZE s (HEADER B)"
  have z8: "8 dvd ?z" by (rule GET_SIZE_dvd)
  have a1: "(?z + 1) AND - 8 = ?z" using dvd8_plus1(1)[OF z8] by simp
  have g1: "GET_SIZE s1 (HEADER B) = ?z"
    using a1 by (simp add: s1_def WRITE_DATA_def GET_SIZE_def READ_DATA_def PACK_def)
  have f1: "FOOTER s1 B = FOOTER s B" by (simp add: FOOTER_def g1)
  have m2: "mem s2 = (mem s)(HEADER B := ?z + 1, FOOTER s B := ?z + 1)"
    by (simp add: s2_def f1 g1) (simp add: s1_def WRITE_DATA_def PACK_def)
  have lt2: "lookup_table s2 = lookup_table s" "end_heap s2 = end_heap s"
    by (simp_all add: s2_def s1_def WRITE_DATA_def)
  have ok2: "lists_ok s2 L"
  proof (rule lists_ok_frame[OF ok lt2(1)], rule ballI)
    fix a assume "a \<in> index_cells s L"
    then have "a \<noteq> HEADER B" "a \<noteq> FOOTER s B" using cells by auto
    then show "mem s2 a = mem s a" by (simp add: m2)
  qed
  have ic2: "index_cells s2 L = index_cells s L" by (rule index_cells_frame[OF lt2(1)])
  have fr: "\<And>a. a \<notin> index_cells s L \<Longrightarrow> mem s' a = mem s2 a"
    using remove_reads(7)[OF ok2 c b] unfolding ic2 s'_def by blast
  have h: "mem s' (HEADER B) = ?z + 1"
    using fr[OF cells(1)] by (auto simp: m2)
  have g': "GET_SIZE s' (HEADER B) = ?z" using h a1 by (simp add: GET_SIZE_def READ_DATA_def)
  have f': "FOOTER s' B = FOOTER s B" by (simp add: FOOTER_def g')
  have f: "mem s' (FOOTER s B) = ?z + 1"
    using fr[OF cells(2)] by (simp add: m2)
  show "READ_DATA s' (HEADER B) = PACK ?z 1" using h by (simp add: READ_DATA_def PACK_def)
  show "READ_DATA s' (FOOTER s' B) = PACK ?z 1" using f by (simp add: READ_DATA_def PACK_def f')
  show "lists_ok s' (L(i := remove1 B (L i)))"
    unfolding s'_def by (rule lists_ok_remove[OF ok2 c b])
  show "end_heap s' = end_heap s" by (simp add: s'_def lt2)
qed

lemma split_run:
  assumes ok: "lists_ok s L" and c: "i \<in> classes" and b: "B \<in> set (L i)"
    and free: "BIT s (HEADER B) = 0" and cls: "GET_CLASS (GET_SIZE s (HEADER B)) = i"
    and n8: "8 dvd n" and n32: "32 \<le> n" and nz: "n \<le> GET_SIZE s (HEADER B)"
    and big: "GET_SIZE s (HEADER B) - n > 32"
    and fr: "fresh_block s L (B + n)"
    and cells: "HEADER B \<notin> index_cells s L" "FOOTER s B \<notin> index_cells s L"
      "B + n - HF_OVERHEAD \<notin> index_cells s L" "HEADER (B + n) \<notin> index_cells s L"
  defines "s' \<equiv> split s B n"
  defines "r \<equiv> GET_SIZE s (HEADER B) - n"
  defines "L1 \<equiv> L(i := remove1 B (L i))"
  shows "READ_DATA s' (HEADER B) = PACK n 1"
    "READ_DATA s' (FOOTER s' B) = PACK n 1"
    "READ_DATA s' (HEADER (B + n)) = PACK r 0"
    "READ_DATA s' (FOOTER s' (B + n)) = PACK r 0"
    "GET_CLASS r < 20"
    "lists_ok s' (L1(GET_CLASS r := (B + n) # L1 (GET_CLASS r)))"
    "end_heap s' = (if end_heap s = B then B + n else end_heap s)"
proof -
  define z where "z = GET_SIZE s (HEADER B)"
  have zz: "GET_SIZE s (HEADER B) = z" by (simp add: z_def)
  have nz': "n \<le> z" and big': "z - n > 32" using nz big by (simp_all add: z_def)
  note o = split_offsets[OF n32 nz' big']
  have z8: "8 dvd z" unfolding z_def by (rule GET_SIZE_dvd)
  have r8: "8 dvd z - n" using z8 n8 by (rule dvd_diff)
  have a1: "(n + 1) AND - 8 = n" using dvd8_plus1(1)[OF n8] by simp
  have a2: "(z - n) AND - 8 = z - n" using dvd_and_not7[OF r8] by simp
  let ?s1 = "remove_from_free_list s i B"
  let ?s5 = "?s1\<lparr>mem := (mem ?s1)(B - 8 := n + 1, B + n - 16 := n + 1, B + n - 8 := z - n,
                                   B + z - 16 := z - n)\<rparr>"
  let ?c = "GET_CLASS (z - n)"
  let ?s6 = "put_on_front_of_class_list ?s5 ?c (B + n)"
  have sp: "s' = (if end_heap ?s6 = B then ?s6\<lparr>end_heap := B + n\<rparr> else ?s6)"
    unfolding s'_def split_unfold[OF zz n8 n32 nz' big'] using free cls
    by (simp add: Let_def zz)
  have cellsr: "B - 8 \<notin> index_cells s L" "B + z - 16 \<notin> index_cells s L"
    "B + n - 16 \<notin> index_cells s L" "B + n - 8 \<notin> index_cells s L"
    using cells zz
    by (simp_all add: HEADER_def FOOTER_def HEADER_SIZE_def FOOTER_SIZE_def HF_OVERHEAD_def)
  have ok1: "lists_ok ?s1 L1" unfolding L1_def by (rule lists_ok_remove[OF ok c b])
  have ic1: "index_cells ?s1 L1 \<subseteq> index_cells s L"
    unfolding L1_def by (rule index_cells_remove[OF c])
  have ok5: "lists_ok ?s5 L1"
  proof (rule lists_ok_frame[OF ok1], simp, rule ballI)
    fix a assume "a \<in> index_cells ?s1 L1"
    then have "a \<in> index_cells s L" using ic1 by blast
    then have "a \<noteq> B - 8" "a \<noteq> B + z - 16" "a \<noteq> B + n - 16" "a \<noteq> B + n - 8"
      using cellsr by auto
    then show "mem ?s5 a = mem ?s1 a" by simp
  qed
  have ic5: "index_cells ?s5 L1 \<subseteq> index_cells s L"
    using ic1 index_cells_frame[of ?s5 ?s1 L1] by simp
  have nsub: "nodes L1 \<subseteq> nodes L" unfolding L1_def by (rule nodes_remove[OF c])
  have fr5: "fresh_block ?s5 L1 (B + n)"
    using fr nsub unfolding fresh_block_def
    by (simp add: LOOKUP_TABLE_def) blast
  have zs: "unat z < 64 * 2 ^ 19"
    using GET_CLASS_listed_small[of z] cls c by (simp add: zz classes_iff)
  have "unat (z - n) \<le> unat z" using nz' by (simp add: unat_sub word_le_nat_alt)
  then have c20: "?c < 20" using zs by (intro GET_CLASS_small) simp
  then have cc: "?c \<in> classes" using GET_CLASS_bounds[of "z - n"] by (simp add: classes_iff)
  note p = lists_ok_put[OF ok5 cc fr5]
  have keep: "mem ?s6 a = mem ?s5 a"
    if "a \<notin> index_cells s L" "a \<noteq> B + n" "a \<noteq> B + n + 8" for a
    using p(2) that ic5 by (auto simp: PREV_def NEXT_def ADDRESS_SIZE_def)
  have m1: "mem ?s6 (B - 8) = n + 1"
    using keep[OF cellsr(1)] o by simp
  have m2: "mem ?s6 (B + n - 16) = n + 1"
    using keep[OF cellsr(3)] o by simp
  have m3: "mem ?s6 (B + n - 8) = z - n"
    using keep[OF cellsr(4)] o by simp
  have m4: "mem ?s6 (B + z - 16) = z - n"
    using keep[OF cellsr(2)] o by simp
  have mem': "mem s' = mem ?s6" and lt': "lookup_table s' = lookup_table ?s6"
    unfolding sp by simp_all
  have rz: "r = z - n" by (simp add: r_def z_def)
  have g1: "GET_SIZE s' (HEADER B) = n"
    using m1 a1 by (simp add: GET_SIZE_def READ_DATA_def HEADER_def HEADER_SIZE_def mem')
  have g2: "GET_SIZE s' (HEADER (B + n)) = z - n"
    using m3 a2 by (simp add: GET_SIZE_def READ_DATA_def HEADER_def HEADER_SIZE_def mem')
  show "READ_DATA s' (HEADER B) = PACK n 1"
    using m1 by (simp add: READ_DATA_def HEADER_def HEADER_SIZE_def mem' PACK_def)
  show "READ_DATA s' (FOOTER s' B) = PACK n 1"
    using m2 by (simp add: READ_DATA_def FOOTER_def g1 HF_OVERHEAD_def HEADER_SIZE_def
        FOOTER_SIZE_def mem' PACK_def)
  show "READ_DATA s' (HEADER (B + n)) = PACK r 0"
    using m3 by (simp add: READ_DATA_def HEADER_def HEADER_SIZE_def mem' PACK_def rz)
  show "READ_DATA s' (FOOTER s' (B + n)) = PACK r 0"
    using m4 by (simp add: READ_DATA_def FOOTER_def g2 HF_OVERHEAD_def HEADER_SIZE_def
        FOOTER_SIZE_def mem' PACK_def rz)
  show "GET_CLASS r < 20" using c20 by (simp add: rz)
  have "lists_ok s' (L1(?c := (B + n) # L1 ?c))"
    by (rule lists_ok_frame[OF p(1) lt']) (simp add: mem')
  then show "lists_ok s' (L1(GET_CLASS r := (B + n) # L1 (GET_CLASS r)))" by (simp add: rz)
  show "end_heap s' = (if end_heap s = B then B + n else end_heap s)"
    unfolding sp by simp
qed

section \<open>Concrete heaps\<close>

text \<open>C8, witness: the size 100 lies in class 1, between 64 and 127.\<close>

theorem GET_CLASS_smallest_witness:
  "GET_CLASS 100 = 1 \<and> GET_CLASS 100 < 20 \<and> unat (100 :: 64 word) < 64 * 2 ^ nat (GET_CLASS 100) \<and>
   (0::int) \<le> 0 \<and> 0 < GET_CLASS 100 \<and> 64 * 2 ^ nat 0 \<le> unat (100 :: 64 word)"
  using GET_CLASS_smallest[of 100]
  by (simp add: GET_CLASS_def GET_CLASS_loop.simps CLASSES_def)

text \<open>C8, counterexample to the claim as stated: a block of 64 bytes is not in class 0, and a
  block of \<open>64 * 2^19\<close> bytes gets an index outside 0..19.\<close>

theorem GET_CLASS_counterexample:
  "GET_CLASS 64 \<noteq> 0 \<and> \<not> GET_CLASS (2 ^ 25) \<le> 19"
  by (simp add: GET_CLASS_def GET_CLASS_loop.simps CLASSES_def)

lemma three_free_facts:
  "run_ptrs 0x100000 [Malloc 100, Malloc 80, Malloc 90, Free 2, Free 1, Free 0] = Some [4296, 4416, 4512]"
  "free_path (run_state 0x100000 [Malloc 100, Malloc 80, Malloc 90, Free 2, Free 1, Free 0])
     (READ_ADDR (run_state 0x100000 [Malloc 100, Malloc 80, Malloc 90, Free 2, Free 1, Free 0])
        (LOOKUP_TABLE (run_state 0x100000 [Malloc 100, Malloc 80, Malloc 90, Free 2, Free 1, Free 0]) 1))
     [4296, 4416, 4512]"
  "map (\<lambda>b. GET_SIZE (run_state 0x100000 [Malloc 100, Malloc 80, Malloc 90, Free 2, Free 1, Free 0]) (HEADER b))
     [4296, 4416, 4512] = [120, 96, 112]"
  by (simp_all add: eval_simps cong: eval_congs)

text \<open>C7, witness: list 1 holds the blocks 4296, 4416, 4512 of sizes 120, 96, 112; a search
  for 100 bytes passes over the first fit (120) and returns the block of 112 bytes.\<close>

theorem search_free_list_best_fit_witness:
  "(0::int) \<le> 1 \<and> 1 < CLASSES \<and>
   run_ptrs 0x100000 [Malloc 100, Malloc 80, Malloc 90, Free 2, Free 1, Free 0] = Some [4296, 4416, 4512] \<and>
   free_path (run_state 0x100000 [Malloc 100, Malloc 80, Malloc 90, Free 2, Free 1, Free 0])
     (READ_ADDR (run_state 0x100000 [Malloc 100, Malloc 80, Malloc 90, Free 2, Free 1, Free 0])
        (LOOKUP_TABLE (run_state 0x100000 [Malloc 100, Malloc 80, Malloc 90, Free 2, Free 1, Free 0]) 1))
     [4296, 4416, 4512] \<and>
   map (\<lambda>b. GET_SIZE (run_state 0x100000 [Malloc 100, Malloc 80, Malloc 90, Free 2, Free 1, Free 0]) (HEADER b))
     [4296, 4416, 4512] = [120, 96, 112] \<and>
   search_free_list (run_state 0x100000 [Malloc 100, Malloc 80, Malloc 90, Free 2, Free 1, Free 0]) 1 100
     = Some 4512"
proof -
  let ?S = "run_state 0x100000 [Malloc 100, Malloc 80, Malloc 90, Free 2, Free 1, Free 0]"
  have h1: "(0::int) \<le> 1" and h2: "1 < CLASSES" by (simp_all add: CLASSES_def)
  note h = three_free_facts
  have sz: "GET_SIZE ?S (HEADER 4296) = 120" "GET_SIZE ?S (HEADER 4416) = 96"
    "GET_SIZE ?S (HEADER 4512) = 112"
    using h(3) by simp_all
  from search_free_list_best_fit[OF h1 h2 h(2), of 100] obtain r where
    r: "search_free_list ?S 1 100 = Some r"
       "r = NULL \<longleftrightarrow> (\<forall>x \<in> set [4296, 4416, 4512]. GET_SIZE ?S (HEADER x) < 100)"
       "r \<noteq> NULL \<longrightarrow> r \<in> set [4296, 4416, 4512] \<and> 100 \<le> GET_SIZE ?S (HEADER r) \<and>
          (\<forall>x \<in> set [4296, 4416, 4512]. 100 \<le> GET_SIZE ?S (HEADER x) \<longrightarrow>
               GET_SIZE ?S (HEADER r) \<le> GET_SIZE ?S (HEADER x))"
    by blast
  have "r \<noteq> NULL" using r(2) sz by auto
  with r(3) have "r \<in> {4296, 4416, 4512}" "100 \<le> GET_SIZE ?S (HEADER r)"
    "GET_SIZE ?S (HEADER r) \<le> GET_SIZE ?S (HEADER 4512)" using sz by auto
  then have "r = 4512" using sz by auto
  with r(1) show ?thesis using h1 h2 h by simp
qed

lemma small_heap_facts:
  "GET_SIZE (run_state 0x10C0 [Malloc 16]) (HEADER 4264) < 120"
  "simulate_right_coalesce (run_state 0x10C0 [Malloc 16]) 4264
      (120 - GET_SIZE (run_state 0x10C0 [Malloc 16]) (HEADER 4264)) = Some 0"
  "mm_malloc (run_state 0x10C0 [Malloc 16]) 120 = Some (NULL, run_state 0x10C0 [Malloc 16])"
  "mem_brk (run_state 0x10C0 [Malloc 16]) \<noteq> NULL"
  "run_ptrs 0x10C0 [Malloc 16] = Some [4264]"
  by (simp_all add: eval_simps cong: eval_congs)

text \<open>C2, witness: a heap whose limit leaves no room after \<open>mm_init\<close>. The block at 4264
  is the last block, so growing it to 100 bytes falls back to \<open>mm_malloc\<close>, which finds
  every list empty and cannot grow the heap.\<close>

theorem mm_realloc_alloc_failure_unchanged_witness:
  "run_ptrs 0x10C0 [Malloc 16] = Some [4264] \<and>
   (4264 :: ptr) \<noteq> NULL \<and> (100 :: size_t) > 0 \<and>
   (120 :: size_t) = (if ALIGN (100 + HF_OVERHEAD) < MBS then MBS else ALIGN (100 + HF_OVERHEAD)) \<and>
   GET_SIZE (run_state 0x10C0 [Malloc 16]) (HEADER 4264) < 120 \<and>
   simulate_right_coalesce (run_state 0x10C0 [Malloc 16]) 4264
      (120 - GET_SIZE (run_state 0x10C0 [Malloc 16]) (HEADER 4264)) = Some 0 \<and>
   mm_malloc (run_state 0x10C0 [Malloc 16]) 120 = Some (NULL, run_state 0x10C0 [Malloc 16]) \<and>
   mem_brk (run_state 0x10C0 [Malloc 16]) \<noteq> NULL \<and>
   mm_realloc (run_state 0x10C0 [Malloc 16]) 4264 100 = Some (NULL, run_state 0x10C0 [Malloc 16])"
proof -
  have h1: "(4264 :: ptr) \<noteq> NULL" by (simp add: NULL_def)
  have h2: "(100 :: size_t) > 0" by simp
  have h3: "(120 :: size_t) = (if ALIGN (100 + HF_OVERHEAD) < MBS then MBS else ALIGN (100 + HF_OVERHEAD))"
    by (simp add: macro_defs)
  note h = small_heap_facts
  from mm_realloc_alloc_failure_unchanged[OF h1 h2 h3 h(1) h(2) h(3) h(4)]
  show ?thesis using h1 h2 h3 h by simp
qed











lemma huge_resize_run:
  "run_ptrs 0x100000 [Malloc 1024, Realloc 0 18446744073709551608] = Some [4296, 4296]"
  by (simp add: eval_simps cong: eval_congs)

lemma huge_resize_lost:
  "payload_lost (WRITE_DATA (run_state 0x100000 [Malloc 1024]) (4296 + 16) 171) 4296
     18446744073709551608 16"
  by (simp add: payload_lost_def eval_simps cong: eval_congs)

lemma huge_resize_after:
  "map_option (\<lambda>r. (fst r, GET_SIZE (snd r) (HEADER 4296), READ_DATA (snd r) (4296 + 16)))
     (mm_realloc (WRITE_DATA (run_state 0x100000 [Malloc 1024]) (4296 + 16) 171) 4296
        18446744073709551608) = Some (4296, 32, 33)"
  by (simp add: eval_simps cong: eval_congs)

text \<open>C3, evaluated on the code. A block with a payload of 1024 bytes holds the word 171 at
  offset 16. Resizing it to \<open>2^64 - 8\<close> bytes makes \<open>size + HF_OVERHEAD\<close> wrap around to 8,
  so the needed size becomes \<open>MBS = 32\<close> and \<open>mm_realloc\<close> takes the shrinking path: it
  splits the block, returns the same non-null pointer, and the word at offset 16 is now the
  footer of the 32-byte block.\<close>

theorem mm_realloc_wraps_and_loses_payload:
  "run_ptrs 0x100000 [Malloc 1024, Realloc 0 18446744073709551608] = Some [4296, 4296] \<and>
   payload_lost (WRITE_DATA (run_state 0x100000 [Malloc 1024]) (4296 + 16) 171) 4296
     18446744073709551608 16 \<and>
   map_option (\<lambda>r. (fst r, GET_SIZE (snd r) (HEADER 4296), READ_DATA (snd r) (4296 + 16)))
     (mm_realloc (WRITE_DATA (run_state 0x100000 [Malloc 1024]) (4296 + 16) 171) 4296
        18446744073709551608) = Some (4296, 32, 33)"
  using huge_resize_run huge_resize_lost huge_resize_after by simp

lemma stale_links_run:
  "run_ptrs 0x8001000 [Malloc 100, Malloc 33554416, Malloc 33554416] = Some [4296, 4416, 33558848]"
  by (simp add: eval_simps cong: eval_congs)

lemma stale_links_frees:
  "map_option fst (run (WRITE_DATA (WRITE_DATA
       (run_state 0x8001000 [Malloc 100, Malloc 33554416, Malloc 33554416]) 33558848 4296)
       (33558848 + 8) 4416) [Free 0, Free 2] [4296, 4416, 33558848]) = Some [4296, 4416, 33558848]"
  by (simp add: eval_simps cong: eval_congs)

lemma stale_links_listed:
  "class20_block_listed
     (run_from (WRITE_DATA (WRITE_DATA
          (run_state 0x8001000 [Malloc 100, Malloc 33554416, Malloc 33554416]) 33558848 4296)
          (33558848 + 8) 4416) [4296, 4416, 33558848] [Free 0, Free 2])
     4416 1 [4296, 4416]"
  by (simp add: class20_block_listed_def run_from_def eval_simps cong: eval_congs)

text \<open>C10, evaluated on the code. The client allocates \<open>x\<close> (100 bytes, at 4296) and two
  blocks \<open>p\<close>, \<open>r\<close> of \<open>64 * 2^19\<close> bytes (at 4416 and 33558848), stores the two words \<open>x\<close>
  and \<open>p\<close> at the start of its block \<open>r\<close>, and frees \<open>x\<close>, \<open>r\<close> and then \<open>p\<close>. Freeing
  \<open>r\<close> pushes it on no list (class 20), so the client's two words stay where a free block
  keeps its links. Freeing \<open>p\<close> makes \<open>coalesce\<close> call \<open>remove_from_free_list\<close> with
  the class 20 of \<open>r\<close>: that function has no guard, reads the word after the table (the
  header of the first block, not null) as a list head, and links the "predecessor" \<open>x\<close> of
  \<open>r\<close> to its "successor" \<open>p\<close>. After the call the freed block \<open>p\<close>, whose final class
  is 20, is the second block of list 1.\<close>

theorem class_20_block_linked_by_unguarded_remove:
  "run_ptrs 0x8001000 [Malloc 100, Malloc 33554416, Malloc 33554416] = Some [4296, 4416, 33558848] \<and>
   map_option fst (run (WRITE_DATA (WRITE_DATA
       (run_state 0x8001000 [Malloc 100, Malloc 33554416, Malloc 33554416]) 33558848 4296)
       (33558848 + 8) 4416) [Free 0, Free 2] [4296, 4416, 33558848]) = Some [4296, 4416, 33558848] \<and>
   class20_block_listed
     (run_from (WRITE_DATA (WRITE_DATA
          (run_state 0x8001000 [Malloc 100, Malloc 33554416, Malloc 33554416]) 33558848 4296)
          (33558848 + 8) 4416) [4296, 4416, 33558848] [Free 0, Free 2])
     4416 1 [4296, 4416]"
  using stale_links_run stale_links_frees stale_links_listed by simp

lemma shrink_run_ptrs:
  "run_ptrs 0x100000 [Malloc 1024, Malloc 1024, Free 1, Realloc 0 512] = Some [4296, 5336, 4296]"
  by (simp add: eval_simps cong: eval_congs)

lemma shrink_run_adjacent:
  "adjacent_free_big (run_state 0x100000 [Malloc 1024, Malloc 1024, Free 1, Realloc 0 512]) 4824"
  by (simp add: eval_simps cong: eval_congs)

lemma shrink_run_check:
  "mm_check (run_state 0x100000 [Malloc 1024, Malloc 1024, Free 1, Realloc 0 512])
     = Some [Escaped 4824 5336]"
  by (simp add: eval_simps cong: eval_congs)

lemma shrink_prefix_check:
  "mm_check (run_state 0x100000 [Malloc 1024, Malloc 1024, Free 1]) = Some []"
  by (simp add: eval_simps cong: eval_congs)

text \<open>C1, evaluated on the code. The client allocates two blocks of 1024 bytes, frees the
  second and shrinks the first to 512 bytes. Before the shrink \<open>mm_check\<close> reports nothing.
  The shrink goes through \<open>split\<close>, which puts the free remainder (528 bytes at 4824) on
  its list without looking at its right neighbour, the free block of 1040 bytes at 5336: two
  adjacent free blocks above the threshold of 255 bytes, which the checker of the source
  itself reports as having escaped coalescing.\<close>
theorem resize_shrink_breaks_coalesce_invariant:
  "fst (mm_init (heap0 0x100000)) = 0 \<and>
   run_ptrs 0x100000 [Malloc 1024, Malloc 1024, Free 1, Realloc 0 512] = Some [4296, 5336, 4296] \<and>
   mm_check (run_state 0x100000 [Malloc 1024, Malloc 1024, Free 1]) = Some [] \<and>
   adjacent_free_big (run_state 0x100000 [Malloc 1024, Malloc 1024, Free 1, Realloc 0 512]) 4824 \<and>
   mm_check (run_state 0x100000 [Malloc 1024, Malloc 1024, Free 1, Realloc 0 512])
     = Some [Escaped 4824 5336]"
proof -
  have "fst (mm_init (heap0 0x100000)) = 0"
    by (simp add: eval_simps cong: eval_congs)
  then show ?thesis
    using shrink_run_ptrs shrink_run_adjacent shrink_run_check shrink_prefix_check by simp
qed

lemma check_head_unreported:
  "listed_used_unreported (WRITE_DATA (started 0x100000) (HEADER 4264) (PACK 32 1)) 0 [4264] 4264"
  by (simp add: listed_used_unreported_def eval_simps cong: eval_congs)

lemma check_after_empty_unreported:
  "listed_used_unreported
     (WRITE_DATA (run_state 0x100000 [Malloc 16, Malloc 100, Malloc 100, Free 1, Free 2])
        (HEADER 4296) (PACK 120 1)) 1 [4416, 4296] 4296"
  by (simp add: listed_used_unreported_def eval_simps cong: eval_congs)

text \<open>C9, evaluated on the code. First heap: after \<open>mm_init\<close> the only block is the head
  of list 0; with its in-use bit set, \<open>mm_check\<close> returns without reporting it, because the
  inner loop only tests the successors of a head. Second heap: list 0 is empty and list 1 is
  4416, 4296; with the in-use bit of 4296 set, \<open>mm_check\<close> returns without reporting it,
  because the loop over the classes breaks at the first empty class.\<close>
theorem mm_check_misses_listed_used_blocks:
  "listed_used_unreported (WRITE_DATA (started 0x100000) (HEADER 4264) (PACK 32 1)) 0 [4264] 4264 \<and>
   listed_used_unreported
     (WRITE_DATA (run_state 0x100000 [Malloc 16, Malloc 100, Malloc 100, Free 1, Free 2])
        (HEADER 4296) (PACK 120 1)) 1 [4416, 4296] 4296"
  using check_head_unreported check_after_empty_unreported by simp

end
